theory Spec2Isabelle
  imports Main
begin

section \<open>Data model: task nodes, handles and the task graph\<close>

text \<open>
  The workload recipes of \<^verbatim>\<open>scripts/usecases.py\<close> build lazy task graphs: a decorated
  function, when called, does not run its body but records a node whose arguments are
  either plain values or references to the results of earlier nodes.  The decorator and
  the graph engine behind it are not part of the repository's sources; the definitions
  of this section and of the sections on the builder, the metrics and the executor are
  modelled from the specification.  The recipes themselves (\<open>do_something\<close>, \<open>merge\<close>,
  \<open>add\<close>, \<open>bench_merge\<close>, \<open>bench_tree\<close>) are translated from the source.

  Python integers are unbounded: values are \<^typ>\<open>int\<close>.
\<close>

type_synonym node_id = nat
type_synonym graph_id = nat

text \<open>A handle (future reference) names a node of one particular graph.\<close>

datatype handle = Handle (h_graph: graph_id) (h_node: node_id)

text \<open>An argument is a literal value or a reference to another node's result.\<close>

datatype arg = Lit int | Ref handle

text \<open>
  A callable is opaque to the core: it takes the ordered list of argument values and
  either returns a value (\<open>Inr\<close>) or fails with a cause (\<open>Inl\<close>).
\<close>

type_synonym callable = "int list \<Rightarrow> string + int"

record task_node =
  callable_of :: callable
  args :: "arg list"

text \<open>
  Modelled from the spec: the TaskGraph container (section 3 of the specification).  A node's
  identity is its position in \<open>nodes\<close>, assigned at creation and never reused; \<open>preds\<close>
  and \<open>succs\<close> are the derived adjacency in both directions, one entry per node.
\<close>

record task_graph =
  gid :: graph_id
  nodes :: "task_node list"
  preds :: "node_id list list"
  succs :: "node_id list list"

datatype error =
    InvalidReferenceError
  | CrossGraphReferenceError
  | CycleDetectedError
  | TypeError
  | IndexError

definition empty_graph :: "graph_id \<Rightarrow> task_graph" where
  "empty_graph i = \<lparr>gid = i, nodes = [], preds = [], succs = []\<rparr>"

section \<open>The graph builder\<close>

fun handles_of :: "arg list \<Rightarrow> handle list" where
  "handles_of [] = []"
| "handles_of (Lit v # as) = handles_of as"
| "handles_of (Ref h # as) = h # handles_of as"

definition add_successor :: "node_id \<Rightarrow> node_id \<Rightarrow> node_id list list \<Rightarrow> node_id list list" where
  "add_successor n p ss = ss[p := ss ! p @ [n]]"

text \<open>
  Modelled from the spec: the builder's composition primitive \<open>defer(callable, *args)\<close>
  (sections 4.1 and 4.2), which the source reaches through its decorator; it is named
  \<open>defer_node\<close> here, \<open>defer\<close> being a keyword of the proof language.  A handle of
  another graph is refused with \<open>CrossGraphReferenceError\<close>, a handle of a node that is
  not yet in the graph with \<open>InvalidReferenceError\<close>; a refused call leaves the graph as
  it was.  Otherwise the node is appended, and one edge is recorded per handle-valued
  argument, in both adjacency directions.
\<close>

definition defer_node :: "callable \<Rightarrow> arg list \<Rightarrow> task_graph \<Rightarrow> error + (handle \<times> task_graph)" where
  "defer_node f as g =
     (let hs = handles_of as; n = length (nodes g) in
      if list_ex (\<lambda>h. h_graph h \<noteq> gid g) hs then Inl CrossGraphReferenceError
      else if list_ex (\<lambda>h. n \<le> h_node h) hs then Inl InvalidReferenceError
      else
        let ps = map h_node hs in
        Inr (Handle (gid g) n,
             g\<lparr>nodes := nodes g @ [\<lparr>callable_of = f, args = as\<rparr>],
               preds := preds g @ [ps],
               succs := fold (add_successor n) ps (succs g) @ [[]]\<rparr>))"

section \<open>The workload recipes of the source\<close>

text \<open>
  \<^verbatim>\<open>
  @delayed
  def do_something(x):
      return x * 10

  @delayed
  def merge(*args):
      return sum(args)

  @delayed
  def add(x, y):
      return x + y
  \<close>
  The bodies are callables; a call with the wrong number of arguments raises when the
  body is eventually run.
\<close>

fun do_something_body :: callable where
  "do_something_body [x] = Inr (x * 10)"
| "do_something_body vs = Inl ''TypeError''"

definition merge_body :: callable where
  "merge_body vs = Inr (sum_list vs)"

fun add_body :: callable where
  "add_body [x, y] = Inr (x + y)"
| "add_body vs = Inl ''TypeError''"

text \<open>The decorated names record a node instead of running the body.\<close>

definition do_something :: "arg \<Rightarrow> task_graph \<Rightarrow> error + (handle \<times> task_graph)" where
  "do_something x g = defer_node do_something_body [x] g"

definition merge :: "arg list \<Rightarrow> task_graph \<Rightarrow> error + (handle \<times> task_graph)" where
  "merge xs g = defer_node merge_body xs g"

definition add :: "arg \<Rightarrow> arg \<Rightarrow> task_graph \<Rightarrow> error + (handle \<times> task_graph)" where
  "add x y g = defer_node add_body [x, y] g"

text \<open>
  \<^verbatim>\<open>
  def bench_merge(count=1000):
      xs = [do_something(x) for x in range(count)]
      result = merge(*xs)
      return result
  \<close>
  The comprehension calls \<open>do_something\<close> once per element, in order, each call
  appending to the graph.  \<open>range(count)\<close> is empty for \<open>count \<le> 0\<close>.
\<close>

fun do_something_each :: "int list \<Rightarrow> task_graph \<Rightarrow> error + (arg list \<times> task_graph)" where
  "do_something_each [] g = Inr ([], g)"
| "do_something_each (x # rest) g =
     (case do_something (Lit x) g of
        Inl e \<Rightarrow> Inl e
      | Inr (h, g1) \<Rightarrow>
          (case do_something_each rest g1 of
             Inl e \<Rightarrow> Inl e
           | Inr (xs, g2) \<Rightarrow> Inr (Ref h # xs, g2)))"

definition bench_merge :: "int \<Rightarrow> task_graph \<Rightarrow> error + (handle \<times> task_graph)" where
  "bench_merge count g =
     (case do_something_each (map int [0..<nat count]) g of
        Inl e \<Rightarrow> Inl e
      | Inr (xs, g1) \<Rightarrow> merge xs g1)"

text \<open>
  \<^verbatim>\<open>
  def bench_tree(exp=10):
      L = list(range(2 ** exp))
      while len(L) > 1:
          new_L = []
          for i in range(0, len(L), 2):
              lazy = add(L[i], L[i + 1])  # add neighbors
              new_L.append(lazy)
          L = new_L                       # swap old list for new
      return L
  \<close>
  The inner loop walks \<open>L\<close> two elements at a time; \<open>add_neighbors\<close> consumes the two
  elements \<open>L[i]\<close>, \<open>L[i + 1]\<close> at each step.  On a list of odd length the last step
  reads \<open>L[i + 1]\<close> out of range, which raises \<open>IndexError\<close>.  A negative \<open>exp\<close> makes
  \<open>2 ** exp\<close> a float, which \<open>range\<close> refuses with \<open>TypeError\<close>.
\<close>

fun add_neighbors :: "arg list \<Rightarrow> task_graph \<Rightarrow> error + (arg list \<times> task_graph)" where
  "add_neighbors [] g = Inr ([], g)"
| "add_neighbors [x] g = Inl IndexError"
| "add_neighbors (x # y # rest) g =
     (case add x y g of
        Inl e \<Rightarrow> Inl e
      | Inr (lazy, g1) \<Rightarrow>
          (case add_neighbors rest g1 of
             Inl e \<Rightarrow> Inl e
           | Inr (new_L, g2) \<Rightarrow> Inr (Ref lazy # new_L, g2)))"

lemma add_neighbors_length:
  "add_neighbors L g = Inr (new_L, g') \<Longrightarrow> 2 * length new_L = length L"
  by (induction L g arbitrary: new_L g' rule: add_neighbors.induct)
     (auto split: sum.splits)

function tree_loop :: "arg list \<Rightarrow> task_graph \<Rightarrow> error + (arg list \<times> task_graph)" where
  "tree_loop L g =
     (if 1 < length L then
        (case add_neighbors L g of
           Inl e \<Rightarrow> Inl e
         | Inr (new_L, g1) \<Rightarrow> tree_loop new_L g1)
      else Inr (L, g))"
  by pat_completeness auto
termination
proof (relation "measure (\<lambda>(L, g). length L)")
  show "wf (measure (\<lambda>(L, g). length L))" by simp
next
  fix L :: "arg list" and g :: task_graph and r new_L g1
  assume "1 < length L" and "add_neighbors L g = Inr r" and "(new_L, g1) = r"
  then have "2 * length new_L = length L"
    using add_neighbors_length [of L g new_L g1] by simp
  with \<open>1 < length L\<close> show "((new_L, g1), (L, g)) \<in> measure (\<lambda>(L, g). length L)"
    by simp
qed

declare tree_loop.simps [simp del]

definition bench_tree :: "int \<Rightarrow> task_graph \<Rightarrow> error + (arg list \<times> task_graph)" where
  "bench_tree exp g =
     (if exp < 0 then Inl TypeError
      else tree_loop (map (\<lambda>i. Lit (int i)) [0..<2 ^ nat exp]) g)"

section \<open>Graph metrics\<close>

text \<open>
  Modelled from the spec: GraphMetrics (section 4.4), a read-only analysis of a graph.
  The vertex count is the number of nodes, the edge count the total number of
  dependency edges.
\<close>

definition vertexCount :: "task_graph \<Rightarrow> int" where
  "vertexCount g = int (length (nodes g))"

definition edgeCount :: "task_graph \<Rightarrow> int" where
  "edgeCount g = int (sum_list (map length (succs g)))"

text \<open>The maximum of a list of lengths; an empty list has maximum \<open>0\<close>.\<close>

fun max_of :: "int list \<Rightarrow> int" where
  "max_of [] = 0"
| "max_of (x # xs) = fold max xs x"

text \<open>
  Modelled from the spec: the critical path by dynamic programming over the
  topological order (the creation order is one, a node referring only to earlier
  nodes): a root has value \<open>0\<close>, any other node \<open>1 + max\<close> of its predecessors'
  values; the critical-path length is the maximum over the nodes with no successor.
  A predecessor whose value is not yet in the table (none in a graph made by the
  builder) counts \<open>0\<close>.
\<close>

definition depth_at :: "int list \<Rightarrow> node_id \<Rightarrow> int" where
  "depth_at ds p = (if p < length ds then ds ! p else 0)"

definition node_depth :: "int list \<Rightarrow> node_id list \<Rightarrow> int" where
  "node_depth ds ps = (if ps = [] then 0 else 1 + max_of (map (depth_at ds) ps))"

primrec depths_upto :: "task_graph \<Rightarrow> nat \<Rightarrow> int list" where
  "depths_upto g 0 = []"
| "depths_upto g (Suc k) =
     (let ds = depths_upto g k in ds @ [node_depth ds (preds g ! k)])"

definition depths :: "task_graph \<Rightarrow> int list" where
  "depths g = depths_upto g (length (nodes g))"

definition sinks :: "task_graph \<Rightarrow> node_id list" where
  "sinks g = filter (\<lambda>n. succs g ! n = []) [0..<length (nodes g)]"

definition criticalPathLength :: "task_graph \<Rightarrow> int" where
  "criticalPathLength g = max_of (map (depth_at (depths g)) (sinks g))"

text \<open>
  Nodes without an incoming edge (the leaves of a dependency tree) and nodes with
  at least one; the in-degree of a node is the number of its incoming edges.
\<close>

definition in_degree :: "task_graph \<Rightarrow> node_id \<Rightarrow> nat" where
  "in_degree g n = length (preds g ! n)"

definition leaf_nodes :: "task_graph \<Rightarrow> node_id list" where
  "leaf_nodes g = filter (\<lambda>n. in_degree g n = 0) [0..<length (nodes g)]"

definition internal_nodes :: "task_graph \<Rightarrow> node_id list" where
  "internal_nodes g = filter (\<lambda>n. 0 < in_degree g n) [0..<length (nodes g)]"

text \<open>The number of handle-valued arguments a node was created with.\<close>

definition handle_arg_count :: "task_node \<Rightarrow> nat" where
  "handle_arg_count nd = length (handles_of (args nd))"

text \<open>The graph a recipe has built, when the recipe returned.\<close>

definition built_graph :: "error + ('a \<times> task_graph) \<Rightarrow> task_graph option" where
  "built_graph r = (case r of Inl e \<Rightarrow> None | Inr (x, g) \<Rightarrow> Some g)"

section \<open>The executor\<close>

text \<open>
  Modelled from the spec: ExecutionResult (section 3) and the failure records of
  section 7.  A node ends with its success value, with \<open>TaskExecutionError\<close> (its own
  callable failed; the record keeps the node's identity and the cause), or with
  \<open>DependencyFailedError\<close> (some node it depends on did not succeed, and its own
  callable was not run).
\<close>

datatype outcome = Ok int | TaskExecutionError node_id string | DependencyFailedError

text \<open>
  The state of one execution pass: the result slots filled so far, and the
  invocations of callables in the order they happened (the instrument that counts
  how often a node's callable runs).
\<close>

record exec_state =
  results :: "node_id \<Rightarrow> outcome option"
  trace :: "node_id list"

definition init_state :: exec_state where
  "init_state = \<lparr>results = (\<lambda>n. None), trace = []\<rparr>"

fun arg_value :: "(node_id \<Rightarrow> outcome option) \<Rightarrow> arg \<Rightarrow> int option" where
  "arg_value res (Lit v) = Some v"
| "arg_value res (Ref h) = (case res (h_node h) of Some (Ok v) \<Rightarrow> Some v | _ \<Rightarrow> None)"

fun arg_values :: "(node_id \<Rightarrow> outcome option) \<Rightarrow> arg list \<Rightarrow> int list option" where
  "arg_values res [] = Some []"
| "arg_values res (a # as) =
     (case arg_value res a of
        None \<Rightarrow> None
      | Some v \<Rightarrow> (case arg_values res as of None \<Rightarrow> None | Some vs \<Rightarrow> Some (v # vs)))"

text \<open>
  Modelled from the spec: what running a node whose dependencies have all resolved
  yields.  If a dependency has no success value the node receives
  \<open>DependencyFailedError\<close> and its callable is not invoked; otherwise the callable is
  applied to the argument values, literals as they are and handles replaced by the
  memoized result of the node they name.
\<close>

definition node_outcome :: "task_graph \<Rightarrow> (node_id \<Rightarrow> outcome option) \<Rightarrow> node_id \<Rightarrow> outcome" where
  "node_outcome g res n =
     (case arg_values res (args (nodes g ! n)) of
        None \<Rightarrow> DependencyFailedError
      | Some vs \<Rightarrow>
          (case callable_of (nodes g ! n) vs of
             Inr v \<Rightarrow> Ok v
           | Inl cause \<Rightarrow> TaskExecutionError n cause))"

text \<open>
  Running a node fills its result slot.  The invocation is recorded in the trace
  exactly where the callable is applied: a node that receives
  \<open>DependencyFailedError\<close> leaves the trace as it is.
\<close>

definition run_node :: "task_graph \<Rightarrow> node_id \<Rightarrow> exec_state \<Rightarrow> exec_state" where
  "run_node g n s =
     (case arg_values (results s) (args (nodes g ! n)) of
        None \<Rightarrow> s\<lparr>results := (results s)(n \<mapsto> DependencyFailedError)\<rparr>
      | Some vs \<Rightarrow>
          (case callable_of (nodes g ! n) vs of
             Inr v \<Rightarrow> s\<lparr>results := (results s)(n \<mapsto> Ok v), trace := trace s @ [n]\<rparr>
           | Inl cause \<Rightarrow>
               s\<lparr>results := (results s)(n \<mapsto> TaskExecutionError n cause),
                 trace := trace s @ [n]\<rparr>))"

text \<open>
  Modelled from the spec: the dependency-count gate of section 5.  A node is runnable
  when it has no result yet and its count of unresolved dependencies is zero.
\<close>

definition pending :: "task_graph \<Rightarrow> exec_state \<Rightarrow> node_id \<Rightarrow> nat" where
  "pending g s n = length (filter (\<lambda>p. results s p = None) (preds g ! n))"

definition is_ready :: "task_graph \<Rightarrow> exec_state \<Rightarrow> node_id \<Rightarrow> bool" where
  "is_ready g s n \<longleftrightarrow> n < length (nodes g) \<and> results s n = None \<and> pending g s n = 0"

definition ready_nodes :: "task_graph \<Rightarrow> exec_state \<Rightarrow> node_id list" where
  "ready_nodes g s = filter (is_ready g s) [0..<length (nodes g)]"

definition unresolved :: "task_graph \<Rightarrow> exec_state \<Rightarrow> node_id list" where
  "unresolved g s = filter (\<lambda>n. results s n = None) [0..<length (nodes g)]"

text \<open>
  One scheduling step runs a batch: any non-empty selection of distinct runnable
  nodes, at most \<open>limit\<close> of them (the worker pool's bound).  The nodes of a batch are
  mutually independent, each being runnable before the batch starts.  The failure
  policy is to drain: after a failure the scheduler goes on, nodes outside the failed
  node's dependency cone run normally, and nodes inside it are resolved to
  \<open>DependencyFailedError\<close> without being run.  A schedule is
  the list of batches of an execution pass; \<open>run_schedule\<close> replays it and yields
  \<open>None\<close> when a batch is not one the scheduler may pick.
\<close>

definition run_batch :: "task_graph \<Rightarrow> nat \<Rightarrow> node_id list \<Rightarrow> exec_state \<Rightarrow> exec_state option" where
  "run_batch g limit batch s =
     (if batch \<noteq> [] \<and> length batch \<le> limit \<and> distinct batch \<and> list_all (is_ready g s) batch
      then Some (fold (run_node g) batch s) else None)"

fun run_schedule :: "task_graph \<Rightarrow> nat \<Rightarrow> node_id list list \<Rightarrow> exec_state \<Rightarrow> exec_state option" where
  "run_schedule g limit [] s = Some s"
| "run_schedule g limit (batch # rest) s =
     (case run_batch g limit batch s of
        None \<Rightarrow> None
      | Some s1 \<Rightarrow> run_schedule g limit rest s1)"

definition complete :: "task_graph \<Rightarrow> exec_state \<Rightarrow> bool" where
  "complete g s \<longleftrightarrow> unresolved g s = []"

lemma results_run_node:
  "results (run_node g n s) = (results s)(n \<mapsto> node_outcome g (results s) n)"
  by (simp add: run_node_def node_outcome_def split: option.splits sum.splits)

lemma results_fold_run_node:
  "results (fold (run_node g) batch s) n = None \<longleftrightarrow> n \<notin> set batch \<and> results s n = None"
  by (induction batch arbitrary: s) (auto simp: results_run_node)

lemma unresolved_fold_run_node:
  "unresolved g (fold (run_node g) batch s) = filter (\<lambda>n. n \<notin> set batch) (unresolved g s)"
  by (simp add: unresolved_def results_fold_run_node conj_commute)

text \<open>
  The deterministic scheduler of the entry point: in each round it runs the first
  \<open>limit\<close> runnable nodes, until no node is runnable.
\<close>

function run_loop :: "task_graph \<Rightarrow> nat \<Rightarrow> exec_state \<Rightarrow> exec_state" where
  "run_loop g limit s =
     (let batch = take limit (ready_nodes g s) in
      if batch = [] then s else run_loop g limit (fold (run_node g) batch s))"
  by pat_completeness auto
termination
proof (relation "measure (\<lambda>(g, limit, s). length (unresolved g s))")
  show "wf (measure (\<lambda>(g, limit, s). length (unresolved g s)))" by simp
next
  fix g :: task_graph and limit :: nat and s :: exec_state and batch
  assume b: "batch = take limit (ready_nodes g s)" and ne: "batch \<noteq> []"
  from ne obtain n where n: "n \<in> set batch" by (cases batch) auto
  then have "n \<in> set (ready_nodes g s)" using b by (auto dest: in_set_takeD)
  then have "n \<in> set (unresolved g s)"
    by (auto simp: ready_nodes_def unresolved_def is_ready_def)
  then have "length (filter (\<lambda>n. n \<notin> set batch) (unresolved g s)) < length (unresolved g s)"
    using n by (intro length_filter_less [of n]) auto
  then show "((g, limit, fold (run_node g) batch s), (g, limit, s))
             \<in> measure (\<lambda>(g, limit, s). length (unresolved g s))"
    by (simp add: unresolved_fold_run_node)
qed

declare run_loop.simps [simp del]

text \<open>
  Modelled from the spec: the execution entry point
  \<open>run(graph, terminals, concurrencyLimit)\<close> (section 6).  A terminal must be a handle
  of a node of this graph.  The pass starts from empty result slots; a failure of a
  node is a value in the returned mapping, never an error of the call.  If the
  scheduler stops while a terminal has no result, no node was runnable although work
  was left: the defensive check reports \<open>CycleDetectedError\<close>.  A limit of zero
  leaves the pool without a worker, so no node is ever run, and the stalled pass is
  reported by the same check.
\<close>

fun report :: "exec_state \<Rightarrow> handle list \<Rightarrow> (handle \<times> outcome) list option" where
  "report s [] = Some []"
| "report s (t # ts) =
     (case results s (h_node t) of
        None \<Rightarrow> None
      | Some r \<Rightarrow> (case report s ts of None \<Rightarrow> None | Some m \<Rightarrow> Some ((t, r) # m)))"

definition run :: "task_graph \<Rightarrow> handle list \<Rightarrow> nat \<Rightarrow> error + (handle \<times> outcome) list" where
  "run g terminals limit =
     (if list_ex (\<lambda>t. h_graph t \<noteq> gid g) terminals then Inl CrossGraphReferenceError
      else if list_ex (\<lambda>t. length (nodes g) \<le> h_node t) terminals then Inl InvalidReferenceError
      else
        (case report (run_loop g limit init_state) terminals of
           None \<Rightarrow> Inl CycleDetectedError
         | Some m \<Rightarrow> Inr m))"

section \<open>Graphs made by the builder\<close>

text \<open>
  The graphs the claims speak about are those the builder can make: the empty graph
  of some identity, extended by any number of successful \<open>defer_node\<close> calls with any
  callables and arguments.
\<close>

inductive built :: "task_graph \<Rightarrow> bool" where
  built_empty: "built (empty_graph i)"
| built_defer: "built g \<Longrightarrow> defer_node f as g = Inr (h, g') \<Longrightarrow> built g'"

text \<open>
  What every graph made by the builder satisfies: the adjacency has one entry per
  node; a node's predecessors are the nodes its handle-valued arguments name, all of
  this graph and all created before it; and the successor lists mirror the
  predecessor lists, edge for edge.
\<close>

definition wf_graph :: "task_graph \<Rightarrow> bool" where
  "wf_graph g \<longleftrightarrow>
     length (preds g) = length (nodes g) \<and>
     length (succs g) = length (nodes g) \<and>
     (\<forall>n < length (nodes g).
        preds g ! n = map h_node (handles_of (args (nodes g ! n))) \<and>
        (\<forall>h \<in> set (handles_of (args (nodes g ! n))). h_graph h = gid g) \<and>
        (\<forall>p \<in> set (preds g ! n). p < n) \<and>
        (\<forall>m. count_list (succs g ! n) m = (if m < length (nodes g) then count_list (preds g ! m) n else 0)))"

text \<open>A sequence of builder calls, stopping at the first refused one.\<close>

fun defer_all :: "(callable \<times> arg list) list \<Rightarrow> task_graph \<Rightarrow> error + task_graph" where
  "defer_all [] g = Inr g"
| "defer_all ((f, as) # rest) g =
     (case defer_node f as g of Inl e \<Rightarrow> Inl e | Inr (h, g1) \<Rightarrow> defer_all rest g1)"

text \<open>
  A small graph with literal mixing, fan-out and independent nodes: node 0 feeds
  nodes 2, 3 and 4; nodes 0 and 1 are independent, and so are nodes 2 and 3.
\<close>

definition fan_graph :: task_graph where
  "fan_graph =
     (case defer_all
        [(do_something_body, [Lit 1]),
         (do_something_body, [Lit 2]),
         (add_body, [Ref (Handle 0 0), Ref (Handle 0 1)]),
         (add_body, [Ref (Handle 0 0), Lit 5]),
         (merge_body, [Ref (Handle 0 2), Ref (Handle 0 3), Ref (Handle 0 0)])]
        (empty_graph 0) of
      Inr g \<Rightarrow> g | Inl e \<Rightarrow> empty_graph 0)"

text \<open>
  The same shape with a failing first node: node 1 depends on it and has two
  dependents of its own.
\<close>

definition failing_body :: callable where
  "failing_body vs = Inl ''failed''"

definition failing_graph :: task_graph where
  "failing_graph =
     (case defer_all
        [(failing_body, [Lit 1]),
         (do_something_body, [Ref (Handle 0 0)]),
         (add_body, [Ref (Handle 0 1), Lit 1]),
         (add_body, [Ref (Handle 0 1), Lit 2])]
        (empty_graph 0) of
      Inr g \<Rightarrow> g | Inl e \<Rightarrow> empty_graph 0)"

section \<open>Reference outcomes and consistent result slots\<close>

text \<open>
  The outcome of every node when the nodes are run one after another in creation
  order, as a table filled front to back.  It serves as the reference the
  schedules are compared with.
\<close>

definition lookup :: "outcome list \<Rightarrow> node_id \<Rightarrow> outcome option" where
  "lookup os p = (if p < length os then Some (os ! p) else None)"

primrec outcomes_upto :: "task_graph \<Rightarrow> nat \<Rightarrow> outcome list" where
  "outcomes_upto g 0 = []"
| "outcomes_upto g (Suc k) =
     (let os = outcomes_upto g k in os @ [node_outcome g (lookup os) k])"

definition outcomes :: "task_graph \<Rightarrow> outcome list" where
  "outcomes g = outcomes_upto g (length (nodes g))"

text \<open>
  Result slots are consistent when every filled slot belongs to a node of the graph,
  all of whose dependencies have filled slots, and holds what running the node on
  those slots yields.
\<close>

definition consistent :: "task_graph \<Rightarrow> (node_id \<Rightarrow> outcome option) \<Rightarrow> bool" where
  "consistent g res \<longleftrightarrow>
     (\<forall>n. res n \<noteq> None \<longrightarrow>
        n < length (nodes g) \<and> (\<forall>p \<in> set (preds g ! n). res p \<noteq> None) \<and>
        res n = Some (node_outcome g res n))"

section \<open>The instrumented trace\<close>

text \<open>
  \<open>evaluated_before tr p n\<close>: in the trace \<open>tr\<close> the callable of \<open>p\<close> was invoked before
  that of \<open>n\<close>.  A node's dependency has failed (for this node) when some node it
  directly depends on did not end with a success value; a dependency that itself
  received \<open>DependencyFailedError\<close> counts, so this covers transitive dependencies.
\<close>

definition evaluated_before :: "node_id list \<Rightarrow> node_id \<Rightarrow> node_id \<Rightarrow> bool" where
  "evaluated_before tr p n \<longleftrightarrow> p \<in> set (takeWhile (\<lambda>x. x \<noteq> n) tr)"

definition succeeded :: "exec_state \<Rightarrow> node_id \<Rightarrow> bool" where
  "succeeded s p = (case results s p of Some (Ok v) \<Rightarrow> True | _ \<Rightarrow> False)"

definition dependency_failed :: "task_graph \<Rightarrow> exec_state \<Rightarrow> node_id \<Rightarrow> bool" where
  "dependency_failed g s n = list_ex (\<lambda>p. \<not> succeeded s p) (preds g ! n)"

text \<open>
  The trace is in order when no node occurs twice, the nodes in it are exactly those
  whose result slot holds something other than \<open>DependencyFailedError\<close>, and every
  node in it comes after all the nodes it depends on.
\<close>

definition trace_ok :: "task_graph \<Rightarrow> exec_state \<Rightarrow> bool" where
  "trace_ok g s \<longleftrightarrow>
     distinct (trace s) \<and>
     (\<forall>n. n \<in> set (trace s) \<longleftrightarrow> (\<exists>r. results s n = Some r \<and> r \<noteq> DependencyFailedError)) \<and>
     (\<forall>n \<in> set (trace s). \<forall>p \<in> set (preds g ! n). evaluated_before (trace s) p n)"

text \<open>The number of distinct dependents of a node.\<close>

definition fan_out :: "task_graph \<Rightarrow> node_id \<Rightarrow> nat" where
  "fan_out g n = length (remdups (succs g ! n))"

text \<open>
  Two execution passes over \<open>fan_graph\<close>: one with two workers that runs the
  independent nodes together, one with a single worker and another order.
\<close>

definition fan_state_a :: exec_state where
  "fan_state_a = the (run_schedule fan_graph 2 [[0, 1], [2, 3], [4]] init_state)"

definition fan_state_b :: exec_state where
  "fan_state_b = the (run_schedule fan_graph 1 [[1], [0], [3], [2], [4]] init_state)"

text \<open>
  A graph is failure-free when no callable fails on the arguments it receives:
  every reference outcome is a success value.
\<close>

definition failure_free :: "task_graph \<Rightarrow> bool" where
  "failure_free g = list_all (\<lambda>r. case r of Ok v \<Rightarrow> True | _ \<Rightarrow> False) (outcomes g)"

text \<open>A terminal handle is valid for a graph when it names one of its nodes.\<close>

definition valid_handle :: "task_graph \<Rightarrow> handle \<Rightarrow> bool" where
  "valid_handle g t \<longleftrightarrow> h_graph t = gid g \<and> h_node t < length (nodes g)"

text \<open>
  What a node created with callable \<open>f\<close> as node \<open>n\<close> yields on the argument values
  \<open>vs\<close> (\<open>None\<close> when a dependency has no success value).
\<close>

definition call_outcome :: "callable \<Rightarrow> node_id \<Rightarrow> int list option \<Rightarrow> outcome" where
  "call_outcome f n vs =
     (case vs of
        None \<Rightarrow> DependencyFailedError
      | Some xs \<Rightarrow> (case f xs of Inr v \<Rightarrow> Ok v | Inl cause \<Rightarrow> TaskExecutionError n cause))"

section \<open>Notions for the recipes' lists of arguments\<close>

text \<open>
  An argument is valid for a graph when it is a literal or a handle of one of the
  graph's nodes.  \<open>pair_preds L\<close> lists, for each pair of neighbours in \<open>L\<close>, the nodes
  the pair's handles name.  \<open>handle_at g d a\<close>: the argument \<open>a\<close> is a handle of a node
  of \<open>g\<close> whose longest path from a root has length \<open>d\<close>.
\<close>

fun valid_arg :: "task_graph \<Rightarrow> arg \<Rightarrow> bool" where
  "valid_arg g (Lit v) = True"
| "valid_arg g (Ref h) = (h_graph h = gid g \<and> h_node h < length (nodes g))"

fun pair_preds :: "arg list \<Rightarrow> node_id list list" where
  "pair_preds (x # y # rest) = map h_node (handles_of [x, y]) # pair_preds rest"
| "pair_preds rest = []"

definition handle_at :: "task_graph \<Rightarrow> int \<Rightarrow> arg \<Rightarrow> bool" where
  "handle_at g d a \<longleftrightarrow>
     (\<exists>h. a = Ref h \<and> h_graph h = gid g \<and> h_node h < length (nodes g) \<and>
          depth_at (depths g) (h_node h) = d)"

text \<open>
  \<open>pair_nodes L\<close> lists the \<open>add\<close> nodes one pass of the inner loop creates from \<open>L\<close>.
  \<open>has_successor g\<close> is the set of nodes that some node of \<open>g\<close> depends on.
\<close>

fun pair_nodes :: "arg list \<Rightarrow> task_node list" where
  "pair_nodes (x # y # rest) = \<lparr>callable_of = add_body, args = [x, y]\<rparr> # pair_nodes rest"
| "pair_nodes rest = []"

definition has_successor :: "task_graph \<Rightarrow> node_id set" where
  "has_successor g = \<Union> (set ` set (preds g))"

section \<open>Properties of the builder\<close>

lemma defer_node_Inr:
  assumes "defer_node f as g = Inr (h, g')"
  shows "h = Handle (gid g) (length (nodes g))"
    and "g' = g\<lparr>nodes := nodes g @ [\<lparr>callable_of = f, args = as\<rparr>],
               preds := preds g @ [map h_node (handles_of as)],
               succs := fold (add_successor (length (nodes g))) (map h_node (handles_of as)) (succs g) @ [[]]\<rparr>"
    and "\<And>x. x \<in> set (handles_of as) \<Longrightarrow> h_graph x = gid g \<and> h_node x < length (nodes g)"
  using assms
  by (auto simp: defer_node_def Let_def list_ex_iff split: if_splits)

lemma defer_node_fields:
  assumes "defer_node f as g = Inr (h, g')"
  shows "nodes g' = nodes g @ [\<lparr>callable_of = f, args = as\<rparr>]"
    and "preds g' = preds g @ [map h_node (handles_of as)]"
    and "succs g' = fold (add_successor (length (nodes g))) (map h_node (handles_of as)) (succs g) @ [[]]"
    and "gid g' = gid g"
  using defer_node_Inr(2) [OF assms] by simp_all

lemma length_fold_add_successor [simp]:
  "length (fold (add_successor n) ps ss) = length ss"
  by (induction ps arbitrary: ss) (simp_all add: add_successor_def)

lemma nth_fold_add_successor:
  "\<forall>p \<in> set ps. p < length ss \<Longrightarrow> q < length ss \<Longrightarrow>
   fold (add_successor n) ps ss ! q = ss ! q @ replicate (count_list ps q) n"
proof (induction ps arbitrary: ss)
  case Nil
  then show ?case by simp
next
  case (Cons p ps)
  then show ?case
    by (cases "p = q") (simp_all add: add_successor_def replicate_app_Cons_same)
qed

lemma sum_length_fold_add_successor:
  "\<forall>p \<in> set ps. p < length ss \<Longrightarrow>
   sum_list (map length (fold (add_successor n) ps ss)) = sum_list (map length ss) + length ps"
proof (induction ps arbitrary: ss)
  case Nil
  then show ?case by simp
next
  case (Cons p ps)
  have "sum_list (map length (add_successor n p ss)) = Suc (sum_list (map length ss))"
    using Cons.prems by (simp add: add_successor_def map_update sum_list_update)
  with Cons show ?case by (simp add: add_successor_def)
qed

lemma wf_lengths:
  "wf_graph g \<Longrightarrow> length (preds g) = length (nodes g)"
  "wf_graph g \<Longrightarrow> length (succs g) = length (nodes g)"
  by (simp_all add: wf_graph_def)

lemma wf_preds_args:
  "wf_graph g \<Longrightarrow> n < length (nodes g) \<Longrightarrow>
   preds g ! n = map h_node (handles_of (args (nodes g ! n)))"
  by (simp add: wf_graph_def)

lemma wf_preds_lt:
  "wf_graph g \<Longrightarrow> n < length (nodes g) \<Longrightarrow> p \<in> set (preds g ! n) \<Longrightarrow> p < n"
  by (simp add: wf_graph_def)

lemma wf_succs_count:
  "wf_graph g \<Longrightarrow> n < length (nodes g) \<Longrightarrow>
   count_list (succs g ! n) m = (if m < length (nodes g) then count_list (preds g ! m) n else 0)"
  by (simp add: wf_graph_def)

lemma count_list_replicate:
  "count_list (replicate k x) y = (if y = x then k else 0)"
  by (induction k) auto

lemma wf_empty: "wf_graph (empty_graph i)"
  by (simp add: wf_graph_def empty_graph_def)

lemma wf_defer:
  assumes wf: "wf_graph g" and d: "defer_node f as g = Inr (h, g')"
  shows "wf_graph g'"
proof -
  let ?N = "length (nodes g)"
  let ?ps = "map h_node (handles_of as)"
  note fl = defer_node_fields [OF d]
  have hs: "\<And>x. x \<in> set (handles_of as) \<Longrightarrow> h_graph x = gid g \<and> h_node x < ?N"
    using defer_node_Inr(3) [OF d] .
  have ps: "\<forall>p \<in> set ?ps. p < length (succs g)"
    using hs wf by (auto simp: wf_graph_def)
  have len: "length (preds g) = ?N" "length (succs g) = ?N"
    using wf by (simp_all add: wf_graph_def)
  show ?thesis
    unfolding wf_graph_def
  proof (intro conjI allI impI)
    show "length (preds g') = length (nodes g')" using fl len by simp
    show "length (succs g') = length (nodes g')" using fl len by simp
  next
    fix n assume n: "n < length (nodes g')"
    show "preds g' ! n = map h_node (handles_of (args (nodes g' ! n)))"
    proof (cases "n = ?N")
      case True
      then show ?thesis using fl len by (simp add: nth_append)
    next
      case False
      then have "n < ?N" using n fl by simp
      then show ?thesis using wf fl len by (simp add: wf_graph_def nth_append)
    qed
    show "\<forall>h \<in> set (handles_of (args (nodes g' ! n))). h_graph h = gid g'"
    proof (cases "n = ?N")
      case True
      then show ?thesis using fl len hs by (simp add: nth_append)
    next
      case False
      then have "n < ?N" using n fl by simp
      then show ?thesis using wf fl len by (simp add: wf_graph_def nth_append)
    qed
    show "\<forall>p \<in> set (preds g' ! n). p < n"
    proof (cases "n = ?N")
      case True
      then show ?thesis using fl len hs by (auto simp: nth_append)
    next
      case False
      then have "n < ?N" using n fl by simp
      then show ?thesis using wf fl len by (simp add: wf_graph_def nth_append)
    qed
    fix m
    show "count_list (succs g' ! n) m =
          (if m < length (nodes g') then count_list (preds g' ! m) n else 0)"
    proof (cases "n = ?N")
      case True
      have "\<And>k. k < ?N \<Longrightarrow> n \<notin> set (preds g ! k)"
        using wf_preds_lt [OF wf] True by fastforce
      moreover have "n \<notin> set ?ps" using hs True by fastforce
      ultimately show ?thesis
        using True fl len by (auto simp: nth_append count_list_0_iff)
    next
      case False
      then have nN: "n < ?N" using n fl by simp
      have old: "count_list (succs g ! n) m = (if m < ?N then count_list (preds g ! m) n else 0)"
        using wf nN by (simp add: wf_graph_def)
      have "succs g' ! n = succs g ! n @ replicate (count_list ?ps n) ?N"
        using fl len nN nth_fold_add_successor [OF ps, of n ?N] by (simp add: nth_append)
      then show ?thesis
        using old fl len nN
        by (auto simp: nth_append count_list_replicate less_Suc_eq)
    qed
  qed
qed

lemma built_wf: "built g \<Longrightarrow> wf_graph g"
  by (induction rule: built.induct) (auto intro: wf_empty wf_defer)

lemma defer_all_built:
  "built g \<Longrightarrow> defer_all calls g = Inr g' \<Longrightarrow> built g'"
proof (induction calls arbitrary: g)
  case Nil
  then show ?case by simp
next
  case (Cons c calls)
  obtain f as where c: "c = (f, as)" by (cases c)
  from Cons.prems(2) c obtain h g1 where d: "defer_node f as g = Inr (h, g1)"
    and r: "defer_all calls g1 = Inr g'"
    by (auto split: sum.splits)
  from built_defer [OF Cons.prems(1) d] r show ?case by (rule Cons.IH)
qed

lemma fan_graph_eq:
  "fan_graph =
     \<lparr>gid = 0,
      nodes = [\<lparr>callable_of = do_something_body, args = [Lit 1]\<rparr>,
               \<lparr>callable_of = do_something_body, args = [Lit 2]\<rparr>,
               \<lparr>callable_of = add_body, args = [Ref (Handle 0 0), Ref (Handle 0 1)]\<rparr>,
               \<lparr>callable_of = add_body, args = [Ref (Handle 0 0), Lit 5]\<rparr>,
               \<lparr>callable_of = merge_body,
                args = [Ref (Handle 0 2), Ref (Handle 0 3), Ref (Handle 0 0)]\<rparr>],
      preds = [[], [], [0, 1], [0], [2, 3, 0]],
      succs = [[2, 3, 4], [2], [4], [4], []]\<rparr>"
  by (simp add: fan_graph_def defer_node_def empty_graph_def add_successor_def)

lemma fan_graph_built: "built fan_graph"
proof -
  have "defer_all
        [(do_something_body, [Lit 1]),
         (do_something_body, [Lit 2]),
         (add_body, [Ref (Handle 0 0), Ref (Handle 0 1)]),
         (add_body, [Ref (Handle 0 0), Lit 5]),
         (merge_body, [Ref (Handle 0 2), Ref (Handle 0 3), Ref (Handle 0 0)])]
        (empty_graph 0) = Inr fan_graph"
    by (simp add: fan_graph_def defer_node_def empty_graph_def add_successor_def)
  with built_empty show ?thesis by (rule defer_all_built)
qed

lemma built_edge_sum:
  "built g \<Longrightarrow> sum_list (map length (succs g)) = sum_list (map length (preds g))"
proof (induction rule: built.induct)
  case (built_empty i)
  show ?case by (simp add: empty_graph_def)
next
  case (built_defer g f as h g')
  note fl = defer_node_fields [OF built_defer.hyps(2)]
  have "\<forall>p \<in> set (map h_node (handles_of as)). p < length (succs g)"
    using defer_node_Inr(3) [OF built_defer.hyps(2)] wf_lengths(2) [OF built_wf [OF built_defer.hyps(1)]]
    by auto
  then show ?case
    using built_defer.IH fl by (simp add: sum_length_fold_add_successor)
qed

lemma wf_preds_eq:
  assumes "wf_graph g"
  shows "preds g = map (\<lambda>nd. map h_node (handles_of (args nd))) (nodes g)"
  using wf_lengths(1) [OF assms] wf_preds_args [OF assms]
  by (intro nth_equalityI) simp_all

section \<open>Properties of the metrics\<close>

lemma max_of_Max: "xs \<noteq> [] \<Longrightarrow> max_of xs = Max (set xs)"
  by (cases xs) (simp_all add: Max.set_eq_fold del: set_simps)

lemma max_of_ge: "x \<in> set xs \<Longrightarrow> x \<le> max_of xs"
  by (cases "xs = []") (simp_all add: max_of_Max)

lemma max_of_mem: "xs \<noteq> [] \<Longrightarrow> max_of xs \<in> set xs"
  using Max_in [of "set xs"] by (simp add: max_of_Max)

lemma max_of_le: "0 \<le> b \<Longrightarrow> \<forall>x \<in> set xs. x \<le> b \<Longrightarrow> max_of xs \<le> b"
  by (cases "xs = []") (simp_all add: max_of_Max)

lemma max_of_nonneg: "\<forall>x \<in> set xs. 0 \<le> x \<Longrightarrow> 0 \<le> max_of xs"
  by (cases "xs = []") (use max_of_mem [of xs] in auto)

lemma length_depths_upto [simp]: "length (depths_upto g k) = k"
  by (induction k) (simp_all add: Let_def)

lemma depths_upto_nth:
  "n < k \<Longrightarrow> depths_upto g k ! n = node_depth (depths_upto g n) (preds g ! n)"
  by (induction k) (auto simp: Let_def nth_append less_Suc_eq)

lemma depths_upto_take: "k \<le> m \<Longrightarrow> take k (depths_upto g m) = depths_upto g k"
  by (intro nth_equalityI) (simp_all add: depths_upto_nth)

lemma depths_upto_nonneg: "\<forall>d \<in> set (depths_upto g k). 0 \<le> d"
proof (induction k)
  case 0
  show ?case by simp
next
  case (Suc k)
  have "\<forall>x \<in> set (map (depth_at (depths_upto g k)) (preds g ! k)). 0 \<le> x"
    using Suc by (auto simp: depth_at_def)
  then have "0 \<le> max_of (map (depth_at (depths_upto g k)) (preds g ! k))"
    by (rule max_of_nonneg)
  then have "0 \<le> node_depth (depths_upto g k) (preds g ! k)"
    by (simp add: node_depth_def)
  with Suc show ?case by (simp add: Let_def)
qed

lemma length_depths [simp]: "length (depths g) = length (nodes g)"
  by (simp add: depths_def)

lemma depth_at_nonneg: "0 \<le> depth_at (depths g) n"
  using depths_upto_nonneg [of g "length (nodes g)"]
  by (simp add: depth_at_def depths_def)

lemma node_depth_cong:
  "\<forall>p \<in> set ps. depth_at ds p = depth_at ds' p \<Longrightarrow> node_depth ds ps = node_depth ds' ps"
  by (simp add: node_depth_def cong: map_cong)

lemma depth_at_take: "p < k \<Longrightarrow> depth_at (take k ds) p = depth_at ds p"
  by (simp add: depth_at_def)

text \<open>In a graph made by the builder the table satisfies the recurrence at every node.\<close>

lemma depth_rec:
  assumes wf: "wf_graph g" and n: "n < length (nodes g)"
  shows "depth_at (depths g) n = node_depth (depths g) (preds g ! n)"
proof -
  have "depth_at (depths g) n = node_depth (depths_upto g n) (preds g ! n)"
    using n by (simp add: depth_at_def depths_def depths_upto_nth)
  also have "\<dots> = node_depth (depths g) (preds g ! n)"
  proof (rule node_depth_cong, rule ballI)
    fix p assume "p \<in> set (preds g ! n)"
    then have "p < n" using wf_preds_lt [OF wf n] by simp
    then show "depth_at (depths_upto g n) p = depth_at (depths g) p"
      using n depth_at_take [of p n "depths g"]
      by (simp add: depths_def depths_upto_take)
  qed
  finally show ?thesis .
qed

lemma depth_root:
  "wf_graph g \<Longrightarrow> n < length (nodes g) \<Longrightarrow> preds g ! n = [] \<Longrightarrow> depth_at (depths g) n = 0"
  by (simp add: depth_rec node_depth_def)

lemma depth_pred_less:
  assumes wf: "wf_graph g" and n: "n < length (nodes g)" and p: "p \<in> set (preds g ! n)"
  shows "depth_at (depths g) p < depth_at (depths g) n"
proof -
  have "depth_at (depths g) p \<le> max_of (map (depth_at (depths g)) (preds g ! n))"
    using p by (intro max_of_ge) simp
  moreover have "preds g ! n \<noteq> []" using p by auto
  ultimately show ?thesis
    by (simp add: depth_rec [OF wf n] node_depth_def)
qed

lemma succ_is_pred:
  assumes wf: "wf_graph g" and n: "n < length (nodes g)" and m: "m \<in> set (succs g ! n)"
  shows "m < length (nodes g) \<and> n \<in> set (preds g ! m)"
proof -
  have "count_list (succs g ! n) m \<noteq> 0" using m by (simp add: count_list_0_iff)
  then have "m < length (nodes g) \<and> count_list (preds g ! m) n \<noteq> 0"
    using wf_succs_count [OF wf n, of m] by (simp split: if_splits)
  then show ?thesis
    by (simp add: count_list_0_iff)
qed

lemma pred_is_succ:
  assumes wf: "wf_graph g" and m: "m < length (nodes g)" and p: "p \<in> set (preds g ! m)"
  shows "p < length (nodes g) \<and> m \<in> set (succs g ! p)"
proof -
  have pm: "p < m" using wf_preds_lt [OF wf m p] .
  then have pN: "p < length (nodes g)" using m by simp
  have "count_list (preds g ! m) p \<noteq> 0" using p by (simp add: count_list_0_iff)
  then have "count_list (succs g ! p) m \<noteq> 0"
    using wf_succs_count [OF wf pN, of m] m by simp
  then show ?thesis using pN by (simp add: count_list_0_iff)
qed

text \<open>From every node a sink at least as deep is reached by following successors.\<close>

lemma sink_above:
  assumes wf: "wf_graph g"
  shows "n < length (nodes g) \<Longrightarrow>
         \<exists>m \<in> set (sinks g). depth_at (depths g) n \<le> depth_at (depths g) m"
proof (induction "length (nodes g) - n" arbitrary: n rule: less_induct)
  case less
  show ?case
  proof (cases "succs g ! n = []")
    case True
    then have "n \<in> set (sinks g)" using less.prems by (simp add: sinks_def)
    then show ?thesis by auto
  next
    case False
    then obtain m where m: "m \<in> set (succs g ! n)" by (cases "succs g ! n") auto
    from succ_is_pred [OF wf less.prems m]
    have mN: "m < length (nodes g)" and nm: "n \<in> set (preds g ! m)" by simp_all
    have "n < m" using wf_preds_lt [OF wf mN nm] .
    then have "length (nodes g) - m < length (nodes g) - n" using mN by simp
    from less.hyps [OF this mN] obtain k where
      k: "k \<in> set (sinks g)" "depth_at (depths g) m \<le> depth_at (depths g) k" by auto
    with depth_pred_less [OF wf mN nm]
    have "depth_at (depths g) n \<le> depth_at (depths g) k" by linarith
    with k(1) show ?thesis by blast
  qed
qed

lemma critical_path_max_depth:
  assumes wf: "wf_graph g"
  shows "criticalPathLength g = max_of (depths g)"
proof (cases "nodes g = []")
  case True
  then show ?thesis by (simp add: criticalPathLength_def sinks_def depths_def)
next
  case False
  let ?d = "depth_at (depths g)"
  have ne: "depths g \<noteq> []"
    using False length_depths [of g] by (metis length_0_conv)
  have nn: "0 \<le> max_of (depths g)"
    using depths_upto_nonneg [of g "length (nodes g)"] by (intro max_of_nonneg) (simp add: depths_def)
  have "criticalPathLength g \<le> max_of (depths g)"
    unfolding criticalPathLength_def
  proof (rule max_of_le [OF nn], rule ballI)
    fix x assume "x \<in> set (map ?d (sinks g))"
    then obtain m where "m < length (nodes g)" "x = ?d m" by (auto simp: sinks_def)
    then show "x \<le> max_of (depths g)"
      by (intro max_of_ge) (simp add: depth_at_def)
  qed
  moreover have "max_of (depths g) \<le> criticalPathLength g"
  proof -
    from max_of_mem [OF ne] obtain n where n: "n < length (nodes g)" "depths g ! n = max_of (depths g)"
      by (auto simp: in_set_conv_nth)
    from sink_above [OF wf n(1)] obtain m where
      m: "m \<in> set (sinks g)" "?d n \<le> ?d m" by auto
    have "?d m \<le> criticalPathLength g"
      unfolding criticalPathLength_def using m(1) by (intro max_of_ge) simp
    with m(2) n show ?thesis by (simp add: depth_at_def)
  qed
  ultimately show ?thesis by simp
qed

lemma sum_list_length_zero:
  "sum_list (map length xss) = 0 \<longleftrightarrow> (\<forall>xs \<in> set xss. xs = [])"
  by (induction xss) auto

lemma fan_graph_metrics:
  "vertexCount fan_graph = 5" "edgeCount fan_graph = 6" "criticalPathLength fan_graph = 2"
  by (simp_all add: fan_graph_eq vertexCount_def edgeCount_def criticalPathLength_def
        sinks_def depths_def node_depth_def depth_at_def Let_def numeral_eq_Suc)

section \<open>The graphs of the recipes\<close>

lemma depths_upto_defer:
  assumes "preds g' = preds g @ pss" and "k \<le> length (preds g)"
  shows "depths_upto g' k = depths_upto g k"
  using assms(2) by (induction k) (simp_all add: assms(1) nth_append Let_def)

lemma depths_defer:
  assumes wf: "wf_graph g" and d: "defer_node f as g = Inr (h, g')"
  shows "depths g' = depths g @ [node_depth (depths g) (map h_node (handles_of as))]"
proof -
  note fl = defer_node_fields [OF d]
  have len: "length (preds g) = length (nodes g)" by (rule wf_lengths(1) [OF wf])
  have "depths_upto g' (length (nodes g)) = depths_upto g (length (nodes g))"
    using depths_upto_defer [OF fl(2)] len by simp
  then show ?thesis
    using fl len by (simp add: depths_def Let_def nth_append)
qed

lemma upt_Suc_add_Cons: "[n..<Suc (n + k)] = n # [Suc n..<Suc (n + k)]"
  by (simp add: upt_rec)

lemma do_something_each_eq:
  "do_something_each xs g =
     Inr (map (\<lambda>i. Ref (Handle (gid g) i)) [length (nodes g)..<length (nodes g) + length xs],
          g\<lparr>nodes := nodes g @ map (\<lambda>x. \<lparr>callable_of = do_something_body, args = [Lit x]\<rparr>) xs,
            preds := preds g @ replicate (length xs) [],
            succs := succs g @ replicate (length xs) []\<rparr>)"
proof (induction xs arbitrary: g)
  case Nil
  show ?case by simp
next
  case (Cons x xs)
  have d: "do_something (Lit x) g =
        Inr (Handle (gid g) (length (nodes g)),
             g\<lparr>nodes := nodes g @ [\<lparr>callable_of = do_something_body, args = [Lit x]\<rparr>],
               preds := preds g @ [[]], succs := succs g @ [[]]\<rparr>)"
    by (simp add: do_something_def defer_node_def)
  show ?case
    by (simp add: d Cons.IH upt_Suc_add_Cons replicate_app_Cons_same del: upt_Suc)
qed

lemma do_something_each_built:
  "built g \<Longrightarrow> do_something_each xs g = Inr (hs, g') \<Longrightarrow> built g'"
proof (induction xs arbitrary: g hs g')
  case Nil
  then show ?case by simp
next
  case (Cons x xs)
  from Cons.prems(2) obtain h g1 hs1 where
    d: "defer_node do_something_body [Lit x] g = Inr (h, g1)"
    and r: "do_something_each xs g1 = Inr (hs1, g')"
    by (auto simp: do_something_def split: sum.splits)
  from built_defer [OF Cons.prems(1) d] r show ?case by (rule Cons.IH)
qed

lemma handles_of_map_Ref [simp]: "handles_of (map (\<lambda>k. Ref (f k)) xs) = map f xs"
  by (induction xs) simp_all

lemma handles_of_map_Lit [simp]: "handles_of (map (\<lambda>k. Lit (f k)) xs) = []"
  by (induction xs) simp_all

lemma depths_upto_roots:
  "\<forall>j < k. preds g ! j = [] \<Longrightarrow> depths_upto g k = replicate k 0"
  by (induction k) (simp_all add: Let_def node_depth_def replicate_append_same)

lemma max_of_replicate_0 [simp]: "max_of (replicate k 0) = 0"
proof -
  have "max_of (replicate k 0) \<le> 0" by (intro max_of_le) simp_all
  moreover have "0 \<le> max_of (replicate k 0)" by (intro max_of_nonneg) simp
  ultimately show ?thesis by simp
qed

lemma defer_node_ok:
  assumes "\<forall>h \<in> set (handles_of as). h_graph h = gid g \<and> h_node h < length (nodes g)"
  shows "\<exists>g'. defer_node f as g = Inr (Handle (gid g) (length (nodes g)), g')"
  using assms by (auto simp: defer_node_def Let_def list_ex_iff)

lemma bench_merge_graph:
  fixes count :: int and i :: graph_id
  defines "c \<equiv> nat count"
  shows "\<exists>g. bench_merge count (empty_graph i) = Inr (Handle i c, g) \<and> built g \<and>
             gid g = i \<and>
             nodes g = map (\<lambda>x. \<lparr>callable_of = do_something_body, args = [Lit x]\<rparr>) (map int [0..<c])
                       @ [\<lparr>callable_of = merge_body, args = map (\<lambda>k. Ref (Handle i k)) [0..<c]\<rparr>] \<and>
             preds g = replicate c [] @ [[0..<c]]"
proof -
  let ?xs = "map int [0..<c]"
  obtain hs g1 where e: "do_something_each ?xs (empty_graph i) = Inr (hs, g1)"
    and hs: "hs = map (\<lambda>k. Ref (Handle i k)) [0..<c]"
    and g1: "gid g1 = i"
         "nodes g1 = map (\<lambda>x. \<lparr>callable_of = do_something_body, args = [Lit x]\<rparr>) ?xs"
         "preds g1 = replicate c []"
    by (simp add: do_something_each_eq empty_graph_def)
  have b1: "built g1" using built_empty e by (rule do_something_each_built)
  obtain g where m: "defer_node merge_body hs g1 = Inr (Handle i c, g)"
    using defer_node_ok [of hs g1 merge_body] hs g1 by auto
  have "bench_merge count (empty_graph i) = Inr (Handle i c, g)"
    using e m by (simp add: bench_merge_def merge_def c_def)
  moreover have "built g" using b1 m by (rule built_defer)
  moreover note defer_node_fields [OF m]
  ultimately show ?thesis using hs g1 by (simp add: comp_def)
qed

lemma bench_merge_depths:
  assumes "preds g = replicate c [] @ [[0..<c]]" and "length (nodes g) = Suc c"
  shows "depths g = replicate c 0 @ [if c = 0 then 0 else 1]"
proof -
  have r: "depths_upto g c = replicate c 0"
    using assms(1) by (intro depths_upto_roots) (simp add: nth_append)
  have "map (depth_at (replicate c 0)) [0..<c] = replicate c 0"
    by (intro nth_equalityI) (simp_all add: depth_at_def)
  then show ?thesis
    using assms r by (simp add: depths_def Let_def nth_append node_depth_def)
qed

section \<open>The graph of the tree reduction\<close>

lemma handles_of_valid:
  "\<forall>a \<in> set as. valid_arg g a \<Longrightarrow>
   \<forall>h \<in> set (handles_of as). h_graph h = gid g \<and> h_node h < length (nodes g)"
  by (induction as rule: handles_of.induct) simp_all

lemma valid_arg_defer:
  "defer_node f as g = Inr (h, g') \<Longrightarrow> valid_arg g a \<Longrightarrow> valid_arg g' a"
  by (cases a) (auto dest: defer_node_fields)

lemma add_ok:
  assumes "valid_arg g x" and "valid_arg g y"
  shows "\<exists>g'. add x y g = Inr (Handle (gid g) (length (nodes g)), g') \<and>
              defer_node add_body [x, y] g = Inr (Handle (gid g) (length (nodes g)), g')"
  using defer_node_ok [of "[x, y]" g add_body] handles_of_valid [of "[x, y]" g] assms
  by (auto simp: add_def)

lemma add_neighbors_ok:
  "built g \<Longrightarrow> even (length L) \<Longrightarrow> \<forall>a \<in> set L. valid_arg g a \<Longrightarrow>
   \<exists>g'. add_neighbors L g =
           Inr (map (\<lambda>k. Ref (Handle (gid g) k))
                  [length (nodes g)..<length (nodes g) + length L div 2], g') \<and>
        built g' \<and> gid g' = gid g \<and>
        length (nodes g') = length (nodes g) + length L div 2 \<and>
        preds g' = preds g @ pair_preds L"
proof (induction L g rule: add_neighbors.induct)
  case (1 g)
  then show ?case by simp
next
  case (2 x g)
  then show ?case by simp
next
  case (3 x y rest g)
  from add_ok [of g x y] "3.prems"(3) obtain g1 where
    a: "add x y g = Inr (Handle (gid g) (length (nodes g)), g1)"
    and d: "defer_node add_body [x, y] g = Inr (Handle (gid g) (length (nodes g)), g1)"
    by auto
  note fl = defer_node_fields [OF d]
  have b1: "built g1" using "3.prems"(1) d by (rule built_defer)
  have v1: "\<forall>a \<in> set rest. valid_arg g1 a"
    using "3.prems"(3) valid_arg_defer [OF d] by simp
  have ev: "even (length rest)" using "3.prems"(2) by simp
  from "3.IH" [OF a refl b1 ev v1] obtain g' where
    r: "add_neighbors rest g1 =
          Inr (map (\<lambda>k. Ref (Handle (gid g1) k))
                 [length (nodes g1)..<length (nodes g1) + length rest div 2], g')"
    and g': "built g'" "gid g' = gid g1"
       "length (nodes g') = length (nodes g1) + length rest div 2"
       "preds g' = preds g1 @ pair_preds rest"
    by blast
  show ?case
    using a r g' fl by (simp add: upt_Suc_add_Cons del: upt_Suc)
qed

lemma length_pair_preds [simp]: "length (pair_preds L) = length L div 2"
  by (induction L rule: pair_preds.induct) simp_all

lemma pair_preds_lits:
  "\<forall>a \<in> set L. \<exists>v. a = Lit v \<Longrightarrow> pair_preds L = replicate (length L div 2) []"
  by (induction L rule: pair_preds.induct) auto

lemma pair_preds_handles:
  "\<forall>a \<in> set L. handle_at g d a \<Longrightarrow> ps \<in> set (pair_preds L) \<Longrightarrow>
   length ps = 2 \<and> (\<forall>p \<in> set ps. p < length (nodes g)) \<and> node_depth (depths g) ps = d + 1"
  by (induction L rule: pair_preds.induct)
     (auto simp: handle_at_def node_depth_def)

lemma depths_append:
  assumes len: "length (preds g) = length (nodes g)"
    and p: "preds g' = preds g @ pss"
    and n: "length (nodes g') = length (nodes g) + length pss"
    and c: "\<forall>ps \<in> set pss. (\<forall>p \<in> set ps. p < length (nodes g)) \<and> node_depth (depths g) ps = c"
  shows "depths g' = depths g @ replicate (length pss) c"
proof -
  have "j \<le> length pss \<Longrightarrow>
        depths_upto g' (length (nodes g) + j) = depths g @ replicate j c" for j
  proof (induction j)
    case 0
    show ?case using depths_upto_defer [OF p, of "length (nodes g)"] len
      by (simp add: depths_def)
  next
    case (Suc j)
    let ?ps = "pss ! j"
    have mem: "?ps \<in> set pss" using Suc.prems by simp
    have "node_depth (depths g @ replicate j c) ?ps = node_depth (depths g) ?ps"
    proof (rule node_depth_cong, rule ballI)
      fix q assume "q \<in> set ?ps"
      then have "q < length (nodes g)" using c mem by blast
      then show "depth_at (depths g @ replicate j c) q = depth_at (depths g) q"
        by (simp add: depth_at_def nth_append)
    qed
    then have "node_depth (depths g @ replicate j c) ?ps = c" using c mem by simp
    then show ?case
      using Suc len p by (simp add: Let_def nth_append replicate_append_same)
  qed
  from this [of "length pss"] show ?thesis by (simp add: depths_def n)
qed

lemma add_neighbors_lits:
  assumes b: "built g" and ev: "even (length L)" and l: "\<forall>a \<in> set L. \<exists>v. a = Lit v"
  shows "\<exists>L' g'. add_neighbors L g = Inr (L', g') \<and> built g' \<and> gid g' = gid g \<and>
           L' = map (\<lambda>k. Ref (Handle (gid g) k))
                  [length (nodes g)..<length (nodes g) + length L div 2] \<and>
           length L' = length L div 2 \<and>
           length (nodes g') = length (nodes g) + length L div 2 \<and>
           preds g' = preds g @ replicate (length L div 2) [] \<and>
           depths g' = depths g @ replicate (length L div 2) 0 \<and>
           (\<forall>a \<in> set L'. handle_at g' 0 a)"
proof -
  have v: "\<forall>a \<in> set L. valid_arg g a" using l by auto
  from add_neighbors_ok [OF b ev v] obtain g' where
    e: "add_neighbors L g = Inr (map (\<lambda>k. Ref (Handle (gid g) k))
                  [length (nodes g)..<length (nodes g) + length L div 2], g')"
    and g': "built g'" "gid g' = gid g"
       "length (nodes g') = length (nodes g) + length L div 2"
       "preds g' = preds g @ pair_preds L"
    by blast
  have p: "preds g' = preds g @ replicate (length L div 2) []"
    using g'(4) pair_preds_lits [OF l] by simp
  have d: "depths g' = depths g @ replicate (length L div 2) 0"
    using depths_append [OF wf_lengths(1) [OF built_wf [OF b]] p, of 0] g'(3)
    by (simp add: node_depth_def)
  let ?L' = "map (\<lambda>k. Ref (Handle (gid g) k))
                  [length (nodes g)..<length (nodes g) + length L div 2]"
  have h: "\<forall>a \<in> set ?L'. handle_at g' 0 a"
    using g'(1-3) d by (auto simp: handle_at_def depth_at_def nth_append)
  have ln: "length ?L' = length L div 2" by simp
  from e g'(1-3) ln p d h show ?thesis by blast
qed

lemma add_neighbors_handles:
  assumes b: "built g" and ev: "even (length L)" and l: "\<forall>a \<in> set L. handle_at g d a"
  shows "\<exists>L' g' pss. add_neighbors L g = Inr (L', g') \<and> built g' \<and> gid g' = gid g \<and>
           L' = map (\<lambda>k. Ref (Handle (gid g) k))
                  [length (nodes g)..<length (nodes g) + length L div 2] \<and>
           length L' = length L div 2 \<and>
           length (nodes g') = length (nodes g) + length L div 2 \<and>
           preds g' = preds g @ pss \<and> length pss = length L div 2 \<and>
           (\<forall>ps \<in> set pss. length ps = 2) \<and>
           depths g' = depths g @ replicate (length L div 2) (d + 1) \<and>
           (\<forall>a \<in> set L'. handle_at g' (d + 1) a)"
proof -
  have v: "\<forall>a \<in> set L. valid_arg g a" using l by (auto simp: handle_at_def)
  from add_neighbors_ok [OF b ev v] obtain g' where
    e: "add_neighbors L g = Inr (map (\<lambda>k. Ref (Handle (gid g) k))
                  [length (nodes g)..<length (nodes g) + length L div 2], g')"
    and g': "built g'" "gid g' = gid g"
       "length (nodes g') = length (nodes g) + length L div 2"
       "preds g' = preds g @ pair_preds L"
    by blast
  have d: "depths g' = depths g @ replicate (length L div 2) (d + 1)"
    using depths_append [OF wf_lengths(1) [OF built_wf [OF b]] g'(4), of "d + 1"] g'(3)
      pair_preds_handles [OF l]
    by simp
  let ?L' = "map (\<lambda>k. Ref (Handle (gid g) k))
                  [length (nodes g)..<length (nodes g) + length L div 2]"
  have h: "\<forall>a \<in> set ?L'. handle_at g' (d + 1) a"
    using g'(1-3) d by (auto simp: handle_at_def depth_at_def nth_append)
  have two: "\<forall>ps \<in> set (pair_preds L). length ps = 2"
    using pair_preds_handles [OF l] by blast
  have ln: "length ?L' = length L div 2" "length (pair_preds L) = length L div 2" by simp_all
  from e g' ln two d h show ?thesis by blast
qed

lemma tree_loop_handles:
  "built g \<Longrightarrow> length L = 2 ^ k \<Longrightarrow> \<forall>a \<in> set L. handle_at g d a \<Longrightarrow>
   last L = Ref (Handle (gid g) (length (nodes g) - 1)) \<Longrightarrow>
   \<exists>g' pss ds. tree_loop L g = Inr ([Ref (Handle (gid g) (length (nodes g') - 1))], g') \<and>
      built g' \<and> gid g' = gid g \<and>
      length (nodes g') = length (nodes g) + (2 ^ k - 1) \<and>
      preds g' = preds g @ pss \<and> length pss = 2 ^ k - 1 \<and> (\<forall>ps \<in> set pss. length ps = 2) \<and>
      depths g' = depths g @ ds \<and> (\<forall>x \<in> set ds. x \<le> d + int k) \<and>
      (0 < k \<longrightarrow> d + int k \<in> set ds)"
proof (induction k arbitrary: L g d)
  case 0
  then obtain a where L: "L = [a]" by (cases L) auto
  have "tree_loop L g = Inr ([Ref (Handle (gid g) (length (nodes g) - 1))], g)"
    using L "0.prems"(4) by (simp add: tree_loop.simps)
  with "0.prems"(1) show ?case
    by (intro exI [of _ g] exI [of _ "[]"]) simp
next
  case (Suc k)
  have len: "length L = 2 * 2 ^ k" using Suc.prems(2) by simp
  have pw: "(1::nat) \<le> 2 ^ k" by simp
  have ev: "even (length L)" and half: "length L div 2 = 2 ^ k"
    using len by simp_all
  have gt: "1 < length L" using len pw by linarith
  from add_neighbors_handles [OF Suc.prems(1) ev Suc.prems(3)] obtain L1 g1 pss1 where
    e1: "add_neighbors L g = Inr (L1, g1)" and b1: "built g1" and gid1: "gid g1 = gid g"
    and L1: "L1 = map (\<lambda>k. Ref (Handle (gid g) k))
                  [length (nodes g)..<length (nodes g) + 2 ^ k]"
    and l1: "length L1 = 2 ^ k"
    and n1: "length (nodes g1) = length (nodes g) + 2 ^ k"
    and p1: "preds g1 = preds g @ pss1" "length pss1 = 2 ^ k" "\<forall>ps \<in> set pss1. length ps = 2"
    and d1: "depths g1 = depths g @ replicate (2 ^ k) (d + 1)"
    and h1: "\<forall>a \<in> set L1. handle_at g1 (d + 1) a"
    unfolding half by blast
  have "[length (nodes g)..<length (nodes g) + 2 ^ k] \<noteq> []" using pw by simp
  then have last1: "last L1 = Ref (Handle (gid g1) (length (nodes g1) - 1))"
    unfolding L1 using pw gid1 n1 by (simp add: last_map)
  from Suc.IH [OF b1 l1 h1 last1] obtain g' pss ds where
    e2: "tree_loop L1 g1 = Inr ([Ref (Handle (gid g1) (length (nodes g') - 1))], g')"
    and b2: "built g'" and gid2: "gid g' = gid g1"
    and n2: "length (nodes g') = length (nodes g1) + (2 ^ k - 1)"
    and p2: "preds g' = preds g1 @ pss" "length pss = 2 ^ k - 1" "\<forall>ps \<in> set pss. length ps = 2"
    and d2: "depths g' = depths g1 @ ds" "\<forall>x \<in> set ds. x \<le> d + 1 + int k"
       "0 < k \<longrightarrow> d + 1 + int k \<in> set ds"
    by blast
  have t: "tree_loop L g = Inr ([Ref (Handle (gid g) (length (nodes g') - 1))], g')"
    using gt e1 e2 gid1 by (subst tree_loop.simps) simp
  have n: "length (nodes g') = length (nodes g) + (2 ^ Suc k - 1)"
    using n1 n2 pw by simp
  have p: "preds g' = preds g @ (pss1 @ pss)" "length (pss1 @ pss) = 2 ^ Suc k - 1"
       "\<forall>ps \<in> set (pss1 @ pss). length ps = 2"
    using p1 p2 pw by auto
  have d: "depths g' = depths g @ (replicate (2 ^ k) (d + 1) @ ds)"
    using d1 d2(1) by simp
  have dle: "\<forall>x \<in> set (replicate (2 ^ k) (d + 1) @ ds). x \<le> d + int (Suc k)"
    using d2(2) by auto
  have dmem: "d + int (Suc k) \<in> set (replicate (2 ^ k) (d + 1) @ ds)"
    using d2(3) by (cases "k = 0") (auto simp: add.assoc)
  from t b2 gid1 gid2 n p d dle dmem show ?case
    by (intro exI [of _ g'] exI [of _ "pss1 @ pss"]
          exI [of _ "replicate (2 ^ k) (d + 1) @ ds"]) simp
qed

lemma depths_empty [simp]: "depths (empty_graph i) = []"
  by (simp add: depths_def empty_graph_def)

lemma bench_tree_graph:
  fixes exp :: int
  assumes e: "1 \<le> exp"
  defines "m \<equiv> (2::nat) ^ (nat exp - 1)"
  shows "\<exists>g pss ds. bench_tree exp (empty_graph i) =
             Inr ([Ref (Handle i (length (nodes g) - 1))], g) \<and>
           built g \<and> gid g = i \<and> length (nodes g) = 2 * m - 1 \<and>
           preds g = replicate m [] @ pss \<and> length pss = m - 1 \<and>
           (\<forall>ps \<in> set pss. length ps = 2) \<and>
           depths g = replicate m 0 @ ds \<and> (\<forall>x \<in> set ds. x \<le> exp - 1) \<and>
           (1 < exp \<longrightarrow> exp - 1 \<in> set ds)"
proof -
  let ?L = "map (\<lambda>i. Lit (int i)) [0..<2 ^ nat exp]"
  have m1: "1 \<le> m" by (simp add: m_def)
  have pw: "(2::nat) ^ nat exp = 2 * m"
    using e by (simp add: m_def flip: power_Suc)
  have len: "length ?L = 2 * m" using pw by simp
  have ev: "even (length ?L)" and half: "length ?L div 2 = m" and gt: "1 < length ?L"
    using len m1 by simp_all
  have lits: "\<forall>a \<in> set ?L. \<exists>v. a = Lit v" by auto
  have eg: "gid (empty_graph i) = i" "length (nodes (empty_graph i)) = 0"
    "preds (empty_graph i) = []"
    by (simp_all add: empty_graph_def)
  from add_neighbors_lits [OF built_empty ev lits, of i] obtain L1 g1 where
    e1: "add_neighbors ?L (empty_graph i) = Inr (L1, g1)" and b1: "built g1"
    and gid1: "gid g1 = i"
    and L1: "L1 = map (\<lambda>k. Ref (Handle i k)) [0..<0 + m]"
    and l1: "length L1 = m"
    and n1: "length (nodes g1) = 0 + m"
    and p1: "preds g1 = [] @ replicate m []"
    and d1: "depths g1 = [] @ replicate m 0"
    and h1: "\<forall>a \<in> set L1. handle_at g1 0 a"
    unfolding half eg depths_empty by blast
  have "[0..<m] \<noteq> []" using m1 by simp
  then have last1: "last L1 = Ref (Handle (gid g1) (length (nodes g1) - 1))"
    unfolding L1 using gid1 n1 m1 by (simp add: last_map)
  have l1': "length L1 = 2 ^ (nat exp - 1)" using l1 by (simp add: m_def)
  note tl = tree_loop_handles [OF b1 l1' h1 last1, folded m_def]
  from tl obtain g pss ds where
    e2: "tree_loop L1 g1 = Inr ([Ref (Handle (gid g1) (length (nodes g) - 1))], g)"
    and b2: "built g" and gid2: "gid g = gid g1"
    and n2: "length (nodes g) = length (nodes g1) + (m - 1)"
    and p2: "preds g = preds g1 @ pss" "length pss = m - 1" "\<forall>ps \<in> set pss. length ps = 2"
    and d2: "depths g = depths g1 @ ds" "\<forall>x \<in> set ds. x \<le> 0 + int (nat exp - 1)"
       "0 < nat exp - 1 \<longrightarrow> 0 + int (nat exp - 1) \<in> set ds"
    by (elim exE conjE) (rule that, assumption+)
  have t: "bench_tree exp (empty_graph i) = Inr ([Ref (Handle i (length (nodes g) - 1))], g)"
    using e gt e1 e2 gid1 unfolding bench_tree_def by (subst tree_loop.simps) simp
  have ie: "int (nat exp - 1) = exp - 1" using e by simp
  from t b2 gid1 gid2 n1 n2 m1 p1 p2 d1 d2 ie e show ?thesis
    by (intro exI [of _ g] exI [of _ pss] exI [of _ ds]) auto
qed

lemma length_filter_nth:
  "length (filter (\<lambda>n. P (xs ! n)) [0..<length xs]) = length (filter P xs)"
proof -
  have "filter P xs = filter P (map ((!) xs) [0..<length xs])" by (simp add: map_nth)
  also have "\<dots> = map ((!) xs) (filter (\<lambda>n. P (xs ! n)) [0..<length xs])"
    by (simp add: filter_map comp_def)
  finally show ?thesis by simp
qed

lemma filter_all: "\<forall>x \<in> set xs. P x \<Longrightarrow> filter P xs = xs"
  by (induction xs) simp_all

lemma filter_none: "\<forall>x \<in> set xs. \<not> P x \<Longrightarrow> filter P xs = []"
  by (induction xs) simp_all

lemma sum_list_const_length:
  "\<forall>ps \<in> set pss. length ps = c \<Longrightarrow> sum_list (map length pss) = c * length pss"
  by (induction pss) simp_all

lemma last_node_sink:
  assumes wf: "wf_graph g" and n: "nodes g \<noteq> []"
  shows "succs g ! (length (nodes g) - 1) = []"
proof -
  let ?n = "length (nodes g) - 1"
  have nN: "?n < length (nodes g)" using n by simp
  have "count_list (succs g ! ?n) m = 0" for m
  proof (cases "m < length (nodes g)")
    case True
    have "?n \<notin> set (preds g ! m)" using wf_preds_lt [OF wf True, of ?n] True by auto
    then show ?thesis using wf_succs_count [OF wf nN, of m] True by (simp add: count_list_0_iff)
  next
    case False
    then show ?thesis using wf_succs_count [OF wf nN, of m] by simp
  qed
  then show ?thesis by (cases "succs g ! ?n") (auto simp: count_list_0_iff split: if_splits)
qed

text \<open>
  The root of the reduction: while the loop runs, the nodes without a successor are
  exactly the nodes the current list names; when it ends, only the last node is left.
\<close>

lemma add_neighbors_nodes:
  "add_neighbors L g = Inr (L', g') \<Longrightarrow> nodes g' = nodes g @ pair_nodes L"
proof (induction L g arbitrary: L' g' rule: add_neighbors.induct)
  case (1 g)
  then show ?case by simp
next
  case (2 x g)
  then show ?case by simp
next
  case (3 x y rest g)
  from "3.prems" obtain lazy g1 new_L where
    a: "add x y g = Inr (lazy, g1)" and r: "add_neighbors rest g1 = Inr (new_L, g')"
    by (auto split: sum.splits)
  have d: "defer_node add_body [x, y] g = Inr (lazy, g1)" using a by (simp add: add_def)
  from "3.IH" [OF a refl r] defer_node_fields(1) [OF d] show ?case by simp
qed

lemma has_successor_iff:
  assumes "length (preds g) = length (nodes g)"
  shows "n \<in> has_successor g \<longleftrightarrow> (\<exists>m < length (nodes g). n \<in> set (preds g ! m))"
proof -
  have "n \<in> has_successor g \<longleftrightarrow> (\<exists>ps \<in> set (preds g). n \<in> set ps)"
    by (simp add: has_successor_def)
  also have "\<dots> \<longleftrightarrow> (\<exists>m < length (preds g). n \<in> set (preds g ! m))"
    by (metis in_set_conv_nth)
  finally show ?thesis using assms by simp
qed

lemma sinks_preds:
  assumes wf: "wf_graph g"
  shows "sinks g = filter (\<lambda>n. n \<notin> has_successor g) [0..<length (nodes g)]"
  unfolding sinks_def
proof (rule filter_cong [OF refl])
  fix n assume "n \<in> set [0..<length (nodes g)]"
  then have n: "n < length (nodes g)" by simp
  show "(succs g ! n = []) = (n \<notin> has_successor g)"
  proof
    assume e: "succs g ! n = []"
    show "n \<notin> has_successor g"
    proof
      assume "n \<in> has_successor g"
      then obtain m where m: "m < length (nodes g)" "n \<in> set (preds g ! m)"
        using has_successor_iff [OF wf_lengths(1) [OF wf]] by blast
      from pred_is_succ [OF wf m] e show False by simp
    qed
  next
    assume ns: "n \<notin> has_successor g"
    show "succs g ! n = []"
    proof (rule ccontr)
      assume "succs g ! n \<noteq> []"
      then obtain m where "m \<in> set (succs g ! n)" by (cases "succs g ! n") auto
      from succ_is_pred [OF wf n this] have "m < length (nodes g)" "n \<in> set (preds g ! m)"
        by simp_all
      then have "n \<in> has_successor g"
        using has_successor_iff [OF wf_lengths(1) [OF wf]] by blast
      with ns show False by simp
    qed
  qed
qed

lemma pair_preds_union:
  "even (length L) \<Longrightarrow> \<Union> (set ` set (pair_preds L)) = h_node ` set (handles_of L)"
proof (induction L rule: pair_preds.induct)
  case (1 x y rest)
  have "handles_of (x # y # rest) = handles_of [x, y] @ handles_of rest"
    by (cases x; cases y) simp_all
  with 1 show ?case by auto
qed simp_all

lemma has_successor_append:
  "preds g' = preds g @ pss \<Longrightarrow> has_successor g' = has_successor g \<union> \<Union> (set ` set pss)"
  by (simp add: has_successor_def)

lemma upt_last_two: "2 \<le> n \<Longrightarrow> [n - 2..<n] = [n - 2, n - 1]"
proof -
  assume "2 \<le> n"
  then obtain m where "n = Suc (Suc m)" by (metis add_2_eq_Suc le_Suc_ex)
  then show ?thesis by (simp add: upt_rec)
qed

lemma tree_loop_root:
  "built g \<Longrightarrow> 2 ^ k \<le> length (nodes g) \<Longrightarrow>
   L = map (\<lambda>j. Ref (Handle (gid g) j)) [length (nodes g) - 2 ^ k..<length (nodes g)] \<Longrightarrow>
   has_successor g = {0..<length (nodes g) - 2 ^ k} \<Longrightarrow>
   tree_loop L g = Inr (L', g') \<Longrightarrow>
   has_successor g' = {0..<length (nodes g') - 1} \<and> nodes g' \<noteq> [] \<and>
   (0 < k \<longrightarrow> nodes g' ! (length (nodes g') - 1) =
      \<lparr>callable_of = add_body,
       args = [Ref (Handle (gid g) (length (nodes g') - 3)),
               Ref (Handle (gid g) (length (nodes g') - 2))]\<rparr>)"
proof (induction k arbitrary: g L)
  case 0
  have "length L = 1" using "0.prems"(2,3) by simp
  then have "L' = L" "g' = g" using "0.prems"(5) by (simp_all add: tree_loop.simps)
  moreover have "nodes g \<noteq> []" using "0.prems"(2) by auto
  ultimately show ?case using "0.prems"(4) by simp
next
  case (Suc k)
  let ?N = "length (nodes g)" and ?M = "(2::nat) ^ k"
  have M1: "1 \<le> ?M" by simp
  have N: "2 * ?M \<le> ?N" using Suc.prems(2) by simp
  have L: "L = map (\<lambda>j. Ref (Handle (gid g) j)) [?N - 2 * ?M..<?N]"
    using Suc.prems(3) by simp
  have len: "length L = 2 * ?M" using L N by simp
  have ev: "even (length L)" and half: "length L div 2 = ?M" using len by simp_all
  have gt: "1 < length L" using len M1 by linarith
  have va: "\<forall>a \<in> set L. valid_arg g a" unfolding L by auto
  from add_neighbors_ok [OF Suc.prems(1) ev va] obtain g1 where
    e1: "add_neighbors L g = Inr (map (\<lambda>k. Ref (Handle (gid g) k)) [?N..<?N + ?M], g1)"
    and b1: "built g1" and gid1: "gid g1 = gid g"
    and n1: "length (nodes g1) = ?N + ?M"
    and p1: "preds g1 = preds g @ pair_preds L"
    unfolding half by blast
  let ?L1 = "map (\<lambda>k. Ref (Handle (gid g) k)) [?N..<?N + ?M]"
  have nd1: "nodes g1 = nodes g @ pair_nodes L" by (rule add_neighbors_nodes [OF e1])
  have "h_node ` set (handles_of L) = {?N - 2 * ?M..<?N}"
    unfolding L by (simp add: image_image)
  then have hs1: "has_successor g1 = {0..<length (nodes g1) - ?M}"
    using has_successor_append [OF p1] pair_preds_union [OF ev] Suc.prems(4) N n1
    by auto
  have L1: "?L1 = map (\<lambda>j. Ref (Handle (gid g1) j)) [length (nodes g1) - ?M..<length (nodes g1)]"
    using gid1 n1 by simp
  have M1': "?M \<le> length (nodes g1)" using n1 by simp
  have t1: "tree_loop ?L1 g1 = Inr (L', g')"
    using Suc.prems(5) gt e1 by (subst (asm) tree_loop.simps) simp
  from Suc.IH [OF b1 M1' L1 hs1 t1] have
    ih: "has_successor g' = {0..<length (nodes g') - 1}" "nodes g' \<noteq> []"
    "0 < k \<longrightarrow> nodes g' ! (length (nodes g') - 1) =
      \<lparr>callable_of = add_body,
       args = [Ref (Handle (gid g) (length (nodes g') - 3)),
               Ref (Handle (gid g) (length (nodes g') - 2))]\<rparr>"
    unfolding gid1 by simp_all
  have root: "nodes g' ! (length (nodes g') - 1) =
      \<lparr>callable_of = add_body,
       args = [Ref (Handle (gid g) (length (nodes g') - 3)),
               Ref (Handle (gid g) (length (nodes g') - 2))]\<rparr>"
  proof (cases "0 < k")
    case True
    with ih(3) show ?thesis by simp
  next
    case False
    then have k0: "k = 0" by simp
    then have "length ?L1 = 1" by simp
    then have g': "g' = g1" using t1 by (simp add: tree_loop.simps)
    have N2: "2 \<le> ?N" using N k0 by simp
    have "L = [Ref (Handle (gid g) (?N - 2)), Ref (Handle (gid g) (?N - 1))]"
      using L k0 upt_last_two [OF N2] by simp
    then have "nodes g1 = nodes g @ [\<lparr>callable_of = add_body,
        args = [Ref (Handle (gid g) (?N - 2)), Ref (Handle (gid g) (?N - 1))]\<rparr>]"
      using nd1 by simp
    moreover have "length (nodes g1) = Suc ?N" using n1 k0 by simp
    ultimately show ?thesis using g' N2
      by (simp add: nth_append numeral_3_eq_3 numeral_2_eq_2)
  qed
  from ih(1,2) root show ?case by simp
qed

lemma filter_last_only:
  "1 \<le> n \<Longrightarrow> filter (\<lambda>k. k \<notin> {0..<n - 1}) [0..<n] = [n - 1]"
proof -
  assume "1 \<le> n"
  then obtain m where n: "n = Suc m" by (cases n) auto
  have "filter (\<lambda>k. k \<notin> {0..<m}) [0..<m] = []" by (rule filter_none) simp
  then show ?thesis by (simp add: n)
qed

lemma bench_tree_root:
  fixes exp :: int
  assumes e: "1 \<le> exp" and t: "bench_tree exp (empty_graph i) = Inr (L, g)"
  shows "built g \<and> sinks g = [length (nodes g) - 1] \<and>
         nodes g ! (length (nodes g) - 1) =
           \<lparr>callable_of = add_body,
            args = (if exp = 1 then [Lit 0, Lit 1]
                    else [Ref (Handle i (length (nodes g) - 3)),
                          Ref (Handle i (length (nodes g) - 2))])\<rparr>"
proof -
  define m :: nat where "m = 2 ^ (nat exp - 1)"
  let ?L = "map (\<lambda>i. Lit (int i)) [0..<2 ^ nat exp]"
  have m1: "1 \<le> m" by (simp add: m_def)
  have pw: "(2::nat) ^ nat exp = 2 * m"
    using e by (simp add: m_def flip: power_Suc)
  have len: "length ?L = 2 * m" using pw by simp
  have ev: "even (length ?L)" and half: "length ?L div 2 = m" using len by simp_all
  have gt: "1 < length ?L" using len m1 by linarith
  have lits: "\<forall>a \<in> set ?L. \<exists>v. a = Lit v" by auto
  have va: "\<forall>a \<in> set ?L. valid_arg (empty_graph i) a" by auto
  have eg: "gid (empty_graph i) = i" "length (nodes (empty_graph i)) = 0"
    "preds (empty_graph i) = []"
    by (simp_all add: empty_graph_def)
  have egn: "nodes (empty_graph i) = []" by (simp add: empty_graph_def)
  from add_neighbors_ok [OF built_empty ev va] obtain g1 where
    e1: "add_neighbors ?L (empty_graph i) = Inr (map (\<lambda>k. Ref (Handle i k)) [0..<0 + m], g1)"
    and b1: "built g1" and gid1: "gid g1 = i"
    and n1: "length (nodes g1) = 0 + m"
    and p1: "preds g1 = [] @ pair_preds ?L"
    unfolding half eg by (elim exE conjE) (rule that, assumption+)
  let ?L1 = "map (\<lambda>k. Ref (Handle i k)) [0..<0 + m]"
  have nd1: "nodes g1 = pair_nodes ?L" using add_neighbors_nodes [OF e1] egn by simp
  have "pair_preds ?L = replicate m []" using pair_preds_lits [OF lits] half by simp
  then have hs1: "has_successor g1 = {0..<length (nodes g1) - 2 ^ (nat exp - 1)}"
    using p1 n1 by (simp add: has_successor_def m_def)
  have L1: "?L1 = map (\<lambda>j. Ref (Handle (gid g1) j))
                   [length (nodes g1) - 2 ^ (nat exp - 1)..<length (nodes g1)]"
    using gid1 n1 by (simp add: m_def)
  have le1: "2 ^ (nat exp - 1) \<le> length (nodes g1)" using n1 by (simp add: m_def)
  have t1: "tree_loop ?L1 g1 = Inr (L, g)"
    using t e gt e1 unfolding bench_tree_def by (subst (asm) tree_loop.simps) simp
  from tree_loop_root [OF b1 le1 L1 hs1 t1] have
    hs: "has_successor g = {0..<length (nodes g) - 1}" and ne: "nodes g \<noteq> []"
    and rt: "0 < nat exp - 1 \<longrightarrow> nodes g ! (length (nodes g) - 1) =
      \<lparr>callable_of = add_body,
       args = [Ref (Handle i (length (nodes g) - 3)), Ref (Handle i (length (nodes g) - 2))]\<rparr>"
    unfolding gid1 by simp_all
  from bench_tree_graph [OF e, of i] t have b: "built g" by auto
  have "1 \<le> length (nodes g)" using ne by (cases "nodes g") auto
  then have "filter (\<lambda>k. k \<notin> {0..<length (nodes g) - 1}) [0..<length (nodes g)] =
             [length (nodes g) - 1]"
    by (rule filter_last_only)
  then have sk: "sinks g = [length (nodes g) - 1]"
    by (simp only: sinks_preds [OF built_wf [OF b]] hs)
  have root: "nodes g ! (length (nodes g) - 1) =
           \<lparr>callable_of = add_body,
            args = (if exp = 1 then [Lit 0, Lit 1]
                    else [Ref (Handle i (length (nodes g) - 3)),
                          Ref (Handle i (length (nodes g) - 2))])\<rparr>"
  proof (cases "exp = 1")
    case True
    then have "m = 1" by (simp add: m_def)
    then have "length ?L1 = 1" by simp
    then have "g = g1" using t1 by (simp add: tree_loop.simps)
    moreover have "?L = [Lit 0, Lit 1]" using True by (simp add: upt_rec)
    ultimately show ?thesis using nd1 True by simp
  next
    case False
    then have "0 < nat exp - 1" using e by simp
    with rt False show ?thesis by simp
  qed
  from b sk root show ?thesis by simp
qed

lemma bench_tree_critical_path:
  fixes exp :: int
  assumes e: "1 \<le> exp" and t: "bench_tree exp (empty_graph i) = Inr (L, g)"
  shows "criticalPathLength g = exp - 1 \<and> length (nodes g) = 2 ^ nat exp - 1 \<and>
         L = [Ref (Handle i (length (nodes g) - 1))]"
proof -
  from bench_tree_graph [OF e, of i] t obtain ds where
    b: "built g" and n: "length (nodes g) = 2 * 2 ^ (nat exp - 1) - 1"
    and L: "L = [Ref (Handle i (length (nodes g) - 1))]"
    and d: "depths g = replicate (2 ^ (nat exp - 1)) 0 @ ds" "\<forall>x \<in> set ds. x \<le> exp - 1"
       "1 < exp \<longrightarrow> exp - 1 \<in> set ds"
    by auto
  have "nat exp = Suc (nat exp - 1)" using e by simp
  then have "(2::nat) ^ nat exp = 2 * 2 ^ (nat exp - 1)" by (metis power_Suc)
  then have n': "length (nodes g) = 2 ^ nat exp - 1" using n by simp
  have "max_of (depths g) = exp - 1"
  proof (rule antisym)
    show "max_of (depths g) \<le> exp - 1"
      unfolding d(1) using d(2) e by (intro max_of_le) auto
    show "exp - 1 \<le> max_of (depths g)"
    proof (cases "1 < exp")
      case True
      then show ?thesis unfolding d(1) using d(3) by (intro max_of_ge) simp
    next
      case False
      then have "exp - 1 = 0" using e by simp
      moreover have "0 \<in> set (depths g)" unfolding d(1) by simp
      ultimately show ?thesis using max_of_ge [of 0 "depths g"] by simp
    qed
  qed
  then have "criticalPathLength g = exp - 1"
    using critical_path_max_depth [OF built_wf [OF b]] by simp
  with n' L show ?thesis by simp
qed

section \<open>Properties of the executor\<close>

lemma arg_values_cong:
  "\<forall>h \<in> set (handles_of as). res (h_node h) = res' (h_node h) \<Longrightarrow>
   arg_values res as = arg_values res' as"
  by (induction as rule: handles_of.induct) (auto split: option.splits)

lemma consistent_lt: "consistent g res \<Longrightarrow> res n \<noteq> None \<Longrightarrow> n < length (nodes g)"
  by (simp add: consistent_def)

lemma consistent_preds:
  "consistent g res \<Longrightarrow> res n \<noteq> None \<Longrightarrow> p \<in> set (preds g ! n) \<Longrightarrow> res p \<noteq> None"
  by (simp add: consistent_def)

lemma consistent_val:
  "consistent g res \<Longrightarrow> res n \<noteq> None \<Longrightarrow> res n = Some (node_outcome g res n)"
  by (simp add: consistent_def)

lemma node_outcome_cong:
  assumes wf: "wf_graph g" and n: "n < length (nodes g)"
    and eq: "\<forall>p \<in> set (preds g ! n). res p = res' p"
  shows "node_outcome g res n = node_outcome g res' n"
proof -
  have "arg_values res (args (nodes g ! n)) = arg_values res' (args (nodes g ! n))"
    using eq by (intro arg_values_cong) (simp add: wf_preds_args [OF wf n])
  then show ?thesis by (simp add: node_outcome_def)
qed

lemma consistent_init: "consistent g (results init_state)"
  by (simp add: consistent_def init_state_def)

declare results_run_node [simp]

lemma is_ready_preds:
  "is_ready g s n \<Longrightarrow> p \<in> set (preds g ! n) \<Longrightarrow> results s p \<noteq> None"
  by (auto simp: is_ready_def pending_def filter_empty_conv)

lemma consistent_run_node:
  assumes wf: "wf_graph g" and c: "consistent g (results s)" and r: "is_ready g s n"
  shows "consistent g (results (run_node g n s))"
  unfolding consistent_def
proof (intro allI impI)
  let ?res = "results s" and ?res' = "results (run_node g n s)"
  fix m assume m: "?res' m \<noteq> None"
  have nN: "n < length (nodes g)" and nn: "?res n = None" using r by (simp_all add: is_ready_def)
  have n_notin: "n \<notin> set (preds g ! k)" if "k = n \<or> ?res k \<noteq> None" for k
  proof
    assume in_p: "n \<in> set (preds g ! k)"
    from that show False
    proof
      assume "k = n"
      with in_p wf_preds_lt [OF wf nN, of n] show False by simp
    next
      assume "?res k \<noteq> None"
      from consistent_preds [OF c this in_p] nn show False by simp
    qed
  qed
  have old: "?res m \<noteq> None" if "m \<noteq> n" using m that by simp
  have mN: "m < length (nodes g)"
    using nN consistent_lt [OF c old] by (cases "m = n") simp_all
  have pm: "\<forall>p \<in> set (preds g ! m). ?res p \<noteq> None"
  proof (cases "m = n")
    case True
    then show ?thesis using is_ready_preds [OF r] by simp
  next
    case False
    then show ?thesis using consistent_preds [OF c old] by auto
  qed
  have same: "node_outcome g ?res' m = node_outcome g ?res m"
  proof (rule node_outcome_cong [OF wf mN], rule ballI)
    fix p assume p: "p \<in> set (preds g ! m)"
    have "m = n \<or> ?res m \<noteq> None" using m by (auto split: if_splits)
    from n_notin [OF this] p have "p \<noteq> n" by auto
    then show "?res' p = ?res p" by simp
  qed
  have val: "?res' m = Some (node_outcome g ?res' m)"
  proof (cases "m = n")
    case True
    then show ?thesis using same by simp
  next
    case False
    then show ?thesis using consistent_val [OF c old] same by simp
  qed
  from mN pm val show "m < length (nodes g) \<and> (\<forall>p \<in> set (preds g ! m). ?res' p \<noteq> None) \<and>
        ?res' m = Some (node_outcome g ?res' m)"
    by auto
qed

lemma is_ready_run_node:
  "is_ready g s m \<Longrightarrow> m \<noteq> n \<Longrightarrow> is_ready g (run_node g n s) m"
  by (auto simp: is_ready_def pending_def filter_empty_conv)

lemma consistent_fold:
  assumes wf: "wf_graph g"
  shows "consistent g (results s) \<Longrightarrow> distinct batch \<Longrightarrow> \<forall>n \<in> set batch. is_ready g s n \<Longrightarrow>
         consistent g (results (fold (run_node g) batch s))"
proof (induction batch arbitrary: s)
  case Nil
  then show ?case by simp
next
  case (Cons n batch)
  have c1: "consistent g (results (run_node g n s))"
    by (rule consistent_run_node [OF wf Cons.prems(1)]) (use Cons.prems(3) in simp)
  have r1: "\<forall>m \<in> set batch. is_ready g (run_node g n s) m"
    using Cons.prems(2,3) by (auto intro: is_ready_run_node)
  have d1: "distinct batch" using Cons.prems(2) by simp
  from Cons.IH [OF c1 d1 r1] show ?case by (simp del: results_run_node)
qed

lemma consistent_agree:
  assumes wf: "wf_graph g" and c1: "consistent g r1" and c2: "consistent g r2"
  shows "r1 n \<noteq> None \<Longrightarrow> r2 n \<noteq> None \<Longrightarrow> r1 n = r2 n"
proof (induction n rule: less_induct)
  case (less n)
  have nN: "n < length (nodes g)" by (rule consistent_lt [OF c1 less.prems(1)])
  have "\<forall>p \<in> set (preds g ! n). r1 p = r2 p"
  proof
    fix p assume p: "p \<in> set (preds g ! n)"
    then have "p < n" by (rule wf_preds_lt [OF wf nN])
    moreover have "r1 p \<noteq> None" "r2 p \<noteq> None"
      using consistent_preds [OF c1 less.prems(1) p] consistent_preds [OF c2 less.prems(2) p]
      by simp_all
    ultimately show "r1 p = r2 p" by (rule less.IH)
  qed
  then have "node_outcome g r1 n = node_outcome g r2 n"
    by (rule node_outcome_cong [OF wf nN])
  then show ?case
    using consistent_val [OF c1 less.prems(1)] consistent_val [OF c2 less.prems(2)] by simp
qed

lemma length_outcomes_upto [simp]: "length (outcomes_upto g k) = k"
  by (induction k) (simp_all add: Let_def)

lemma length_outcomes [simp]: "length (outcomes g) = length (nodes g)"
  by (simp add: outcomes_def)

lemma outcomes_upto_nth:
  "n < k \<Longrightarrow> outcomes_upto g k ! n = node_outcome g (lookup (outcomes_upto g n)) n"
  by (induction k) (auto simp: Let_def nth_append less_Suc_eq)

lemma outcomes_upto_take: "k \<le> m \<Longrightarrow> take k (outcomes_upto g m) = outcomes_upto g k"
  by (intro nth_equalityI) (simp_all add: outcomes_upto_nth)

lemma lookup_take: "p < k \<Longrightarrow> lookup (take k os) p = lookup os p"
  by (simp add: lookup_def)

lemma outcomes_rec:
  assumes wf: "wf_graph g" and n: "n < length (nodes g)"
  shows "outcomes g ! n = node_outcome g (lookup (outcomes g)) n"
proof -
  have "outcomes g ! n = node_outcome g (lookup (outcomes_upto g n)) n"
    using n by (simp add: outcomes_def outcomes_upto_nth)
  also have "\<dots> = node_outcome g (lookup (outcomes g)) n"
  proof (rule node_outcome_cong [OF wf n], rule ballI)
    fix p assume "p \<in> set (preds g ! n)"
    then have "p < n" by (rule wf_preds_lt [OF wf n])
    then show "lookup (outcomes_upto g n) p = lookup (outcomes g) p"
      using n lookup_take [of p n "outcomes g"]
      by (simp add: outcomes_def outcomes_upto_take)
  qed
  finally show ?thesis .
qed

lemma consistent_outcomes:
  assumes wf: "wf_graph g"
  shows "consistent g (lookup (outcomes g))"
  unfolding consistent_def
proof (intro allI impI conjI ballI)
  fix n assume "lookup (outcomes g) n \<noteq> None"
  then show n: "n < length (nodes g)" by (simp add: lookup_def split: if_splits)
  show "lookup (outcomes g) n = Some (node_outcome g (lookup (outcomes g)) n)"
    using n outcomes_rec [OF wf n] by (simp add: lookup_def)
  fix p assume "p \<in> set (preds g ! n)"
  then have "p < n" by (rule wf_preds_lt [OF wf n])
  then show "lookup (outcomes g) p \<noteq> None" using n by (simp add: lookup_def)
qed

text \<open>Whatever the schedule, a filled result slot holds the node's reference outcome.\<close>

lemma consistent_outcomes_eq:
  assumes wf: "wf_graph g" and c: "consistent g res" and r: "res n \<noteq> None"
  shows "res n = Some (outcomes g ! n)"
proof -
  have n: "n < length (nodes g)" by (rule consistent_lt [OF c r])
  then have "lookup (outcomes g) n \<noteq> None" by (simp add: lookup_def)
  from consistent_agree [OF wf c consistent_outcomes [OF wf] r this] n
  show ?thesis by (simp add: lookup_def)
qed

lemma consistent_run_batch:
  "wf_graph g \<Longrightarrow> consistent g (results s) \<Longrightarrow> run_batch g limit batch s = Some s' \<Longrightarrow>
   consistent g (results s')"
  by (auto simp: run_batch_def list_all_iff intro: consistent_fold split: if_splits)

lemma consistent_run_schedule:
  "wf_graph g \<Longrightarrow> consistent g (results s) \<Longrightarrow> run_schedule g limit sched s = Some s' \<Longrightarrow>
   consistent g (results s')"
proof (induction sched arbitrary: s)
  case Nil
  then show ?case by simp
next
  case (Cons batch sched)
  from Cons.prems(3) obtain s1 where b: "run_batch g limit batch s = Some s1"
    and r: "run_schedule g limit sched s1 = Some s'"
    by (auto split: option.splits)
  from Cons.IH [OF Cons.prems(1) consistent_run_batch [OF Cons.prems(1,2) b] r]
  show ?case .
qed

lemma ready_nodes_props:
  "distinct (take limit (ready_nodes g s))"
  "\<forall>n \<in> set (take limit (ready_nodes g s)). is_ready g s n"
  by (auto simp: ready_nodes_def dest: in_set_takeD)

lemma consistent_run_loop:
  "wf_graph g \<Longrightarrow> consistent g (results s) \<Longrightarrow> consistent g (results (run_loop g limit s))"
proof (induction g limit s rule: run_loop.induct)
  case (1 g limit s)
  show ?case
  proof (cases "take limit (ready_nodes g s) = []")
    case True
    then show ?thesis using "1.prems" by (subst run_loop.simps) simp
  next
    case False
    have "consistent g (results (fold (run_node g) (take limit (ready_nodes g s)) s))"
      using consistent_fold [OF "1.prems"] ready_nodes_props by blast
    from "1.IH" [OF refl False "1.prems"(1) this] False show ?thesis
      by (subst run_loop.simps) simp
  qed
qed

lemma no_ready_complete:
  assumes wf: "wf_graph g" and nr: "ready_nodes g s = []"
  shows "complete g s"
proof -
  have "n < length (nodes g) \<Longrightarrow> results s n \<noteq> None" for n
  proof (induction n rule: less_induct)
    case (less n)
    show ?case
    proof
      assume none: "results s n = None"
      have "\<forall>p \<in> set (preds g ! n). results s p \<noteq> None"
      proof
        fix p assume "p \<in> set (preds g ! n)"
        then have "p < n" by (rule wf_preds_lt [OF wf less.prems])
        then show "results s p \<noteq> None" using less.IH less.prems by simp
      qed
      then have "is_ready g s n"
        using none less.prems by (simp add: is_ready_def pending_def filter_empty_conv)
      then have "n \<in> set (ready_nodes g s)" using less.prems by (simp add: ready_nodes_def)
      with nr show False by simp
    qed
  qed
  then show ?thesis by (simp add: complete_def unresolved_def filter_empty_conv)
qed

lemma run_loop_no_ready:
  "0 < limit \<Longrightarrow> ready_nodes g (run_loop g limit s) = []"
proof (induction g limit s rule: run_loop.induct)
  case (1 g limit s)
  show ?case
  proof (cases "take limit (ready_nodes g s) = []")
    case True
    then have "ready_nodes g s = []" using "1.prems" by simp
    with True show ?thesis by (subst run_loop.simps) simp
  next
    case False
    from "1.IH" [OF refl False "1.prems"] False show ?thesis
      by (subst run_loop.simps) simp
  qed
qed

lemma run_loop_complete:
  "wf_graph g \<Longrightarrow> 0 < limit \<Longrightarrow> complete g (run_loop g limit s)"
  by (rule no_ready_complete) (simp_all add: run_loop_no_ready)

lemma complete_results:
  "complete g s \<Longrightarrow> n < length (nodes g) \<Longrightarrow> results s n \<noteq> None"
  by (auto simp: complete_def unresolved_def filter_empty_conv)

lemma report_all:
  "\<forall>t \<in> set ts. results s (h_node t) = Some (f t) \<Longrightarrow> report s ts = Some (map (\<lambda>t. (t, f t)) ts)"
  by (induction ts) simp_all

text \<open>The entry point returns, for each terminal, the node's reference outcome.\<close>

lemma run_eq_outcomes:
  assumes b: "built g" and l: "0 < limit"
    and ts: "\<forall>t \<in> set ts. h_graph t = gid g \<and> h_node t < length (nodes g)"
  shows "run g ts limit = Inr (map (\<lambda>t. (t, outcomes g ! h_node t)) ts)"
proof -
  note wf = built_wf [OF b]
  let ?s = "run_loop g limit init_state"
  have c: "consistent g (results ?s)"
    by (rule consistent_run_loop [OF wf consistent_init])
  have "\<forall>t \<in> set ts. results ?s (h_node t) = Some (outcomes g ! h_node t)"
  proof
    fix t assume "t \<in> set ts"
    then have "h_node t < length (nodes g)" using ts by simp
    from complete_results [OF run_loop_complete [OF wf l] this]
    show "results ?s (h_node t) = Some (outcomes g ! h_node t)"
      by (rule consistent_outcomes_eq [OF wf c])
  qed
  then have "report ?s ts = Some (map (\<lambda>t. (t, outcomes g ! h_node t)) ts)"
    by (rule report_all)
  moreover have "\<not> list_ex (\<lambda>t. h_graph t \<noteq> gid g) ts"
    "\<not> list_ex (\<lambda>t. length (nodes g) \<le> h_node t) ts"
    using ts by (auto simp: list_ex_iff)
  ultimately show ?thesis by (simp add: run_def)
qed

lemma arg_values_None_iff:
  "arg_values res as = None \<longleftrightarrow>
   (\<exists>h \<in> set (handles_of as). \<forall>v. res (h_node h) \<noteq> Some (Ok v))"
  by (induction as rule: handles_of.induct) (auto split: option.splits outcome.splits)

lemma node_outcome_failed_iff:
  "node_outcome g res n = DependencyFailedError \<longleftrightarrow> arg_values res (args (nodes g ! n)) = None"
  by (simp add: node_outcome_def split: option.splits sum.splits)

lemma succeeded_iff: "succeeded s p \<longleftrightarrow> (\<exists>v. results s p = Some (Ok v))"
  by (simp add: succeeded_def split: option.splits outcome.splits)

lemma node_outcome_dependency_failed:
  assumes wf: "wf_graph g" and n: "n < length (nodes g)"
  shows "node_outcome g (results s) n = DependencyFailedError \<longleftrightarrow> dependency_failed g s n"
  by (simp add: node_outcome_failed_iff arg_values_None_iff dependency_failed_def list_ex_iff
        wf_preds_args [OF wf n] succeeded_iff)

lemma trace_run_node:
  "trace (run_node g n s) =
     (if node_outcome g (results s) n = DependencyFailedError then trace s else trace s @ [n])"
  by (simp add: run_node_def node_outcome_def split: option.splits sum.splits)

lemma trace_ok_init: "trace_ok g init_state"
  by (simp add: trace_ok_def init_state_def)

lemma trace_ok_run_node:
  assumes wf: "wf_graph g" and t: "trace_ok g s" and r: "is_ready g s n"
  shows "trace_ok g (run_node g n s)"
proof -
  let ?r = "node_outcome g (results s) n"
  have nN: "n < length (nodes g)" and nn: "results s n = None" using r by (simp_all add: is_ready_def)
  have d: "distinct (trace s)"
    and mem: "\<And>m. m \<in> set (trace s) \<longleftrightarrow> (\<exists>r. results s m = Some r \<and> r \<noteq> DependencyFailedError)"
    and ord: "\<And>m p. m \<in> set (trace s) \<Longrightarrow> p \<in> set (preds g ! m) \<Longrightarrow> evaluated_before (trace s) p m"
    using t by (simp_all add: trace_ok_def)
  have n_new: "n \<notin> set (trace s)" using mem [of n] nn by simp
  show ?thesis
  proof (cases "?r = DependencyFailedError")
    case True
    then have tr: "trace (run_node g n s) = trace s" by (simp add: trace_run_node)
    show ?thesis
      unfolding trace_ok_def tr
      using d mem ord n_new True by (auto simp: results_run_node)
  next
    case False
    then have tr: "trace (run_node g n s) = trace s @ [n]" by (simp add: trace_run_node)
    have deps: "p \<in> set (trace s)" if p: "p \<in> set (preds g ! n)" for p
    proof -
      have "\<not> dependency_failed g s n"
        using False node_outcome_dependency_failed [OF wf nN] by simp
      then have "succeeded s p" using p by (auto simp: dependency_failed_def list_ex_iff)
      then show ?thesis using mem [of p] by (auto simp: succeeded_iff)
    qed
    have o: "evaluated_before (trace s @ [n]) p m"
      if m: "m \<in> set (trace s @ [n])" and p: "p \<in> set (preds g ! m)" for m p
    proof (cases "m = n")
      case True
      have "takeWhile (\<lambda>x. x \<noteq> n) (trace s @ [n]) =
            trace s @ takeWhile (\<lambda>x. x \<noteq> n) [n]"
        by (rule takeWhile_append2) (use n_new in auto)
      then have "takeWhile (\<lambda>x. x \<noteq> n) (trace s @ [n]) = trace s" by simp
      then show ?thesis using deps p True by (simp add: evaluated_before_def)
    next
      case False
      then have mt: "m \<in> set (trace s)" using m by simp
      then have "takeWhile (\<lambda>x. x \<noteq> m) (trace s @ [n]) = takeWhile (\<lambda>x. x \<noteq> m) (trace s)"
        by (intro takeWhile_append1) simp_all
      then show ?thesis using ord [OF mt p] by (simp add: evaluated_before_def)
    qed
    show ?thesis
      unfolding trace_ok_def tr
    proof (intro conjI allI ballI)
      show "distinct (trace s @ [n])" using d n_new by simp
      show "m \<in> set (trace s @ [n]) \<longleftrightarrow>
            (\<exists>r. results (run_node g n s) m = Some r \<and> r \<noteq> DependencyFailedError)" for m
        using mem [of m] False by (auto simp: results_run_node)
      show "evaluated_before (trace s @ [n]) p m"
        if "m \<in> set (trace s @ [n])" "p \<in> set (preds g ! m)" for m p
        using that by (rule o)
    qed
  qed
qed

lemma trace_ok_fold:
  assumes wf: "wf_graph g"
  shows "trace_ok g s \<Longrightarrow> distinct batch \<Longrightarrow> \<forall>n \<in> set batch. is_ready g s n \<Longrightarrow>
         trace_ok g (fold (run_node g) batch s)"
proof (induction batch arbitrary: s)
  case Nil
  then show ?case by simp
next
  case (Cons n batch)
  have t1: "trace_ok g (run_node g n s)"
    by (rule trace_ok_run_node [OF wf Cons.prems(1)]) (use Cons.prems(3) in simp)
  have r1: "\<forall>m \<in> set batch. is_ready g (run_node g n s) m"
    using Cons.prems(2,3) by (auto intro: is_ready_run_node)
  have d1: "distinct batch" using Cons.prems(2) by simp
  from Cons.IH [OF t1 d1 r1] show ?case by simp
qed

lemma trace_ok_run_batch:
  "wf_graph g \<Longrightarrow> trace_ok g s \<Longrightarrow> run_batch g limit batch s = Some s' \<Longrightarrow> trace_ok g s'"
  by (auto simp: run_batch_def list_all_iff intro: trace_ok_fold split: if_splits)

lemma trace_ok_run_schedule:
  "wf_graph g \<Longrightarrow> trace_ok g s \<Longrightarrow> run_schedule g limit sched s = Some s' \<Longrightarrow> trace_ok g s'"
proof (induction sched arbitrary: s)
  case Nil
  then show ?case by simp
next
  case (Cons batch sched)
  from Cons.prems(3) obtain s1 where b: "run_batch g limit batch s = Some s1"
    and r: "run_schedule g limit sched s1 = Some s'"
    by (auto split: option.splits)
  from Cons.IH [OF Cons.prems(1) trace_ok_run_batch [OF Cons.prems(1,2) b] r]
  show ?case .
qed

text \<open>The deterministic scheduler follows one of the schedules.\<close>

lemma run_loop_is_schedule:
  "\<exists>sched. run_schedule g limit sched s = Some (run_loop g limit s)"
proof (induction g limit s rule: run_loop.induct)
  case (1 g limit s)
  let ?b = "take limit (ready_nodes g s)"
  show ?case
  proof (cases "?b = []")
    case True
    then have "run_schedule g limit [] s = Some (run_loop g limit s)"
      by (subst run_loop.simps) simp
    then show ?thesis ..
  next
    case False
    from "1.IH" [OF refl False] obtain sched where
      sc: "run_schedule g limit sched (fold (run_node g) ?b s) = Some (run_loop g limit (fold (run_node g) ?b s))"
      by blast
    have "run_batch g limit ?b s = Some (fold (run_node g) ?b s)"
      using False ready_nodes_props [of limit g s] by (simp add: run_batch_def list_all_iff)
    then have "run_schedule g limit (?b # sched) s = Some (run_loop g limit s)"
      using sc False by (subst run_loop.simps) simp
    then show ?thesis ..
  qed
qed

lemma count_list_distinct:
  "distinct xs \<Longrightarrow> count_list xs x = (if x \<in> set xs then 1 else 0)"
  by (induction xs) auto

lemma results_complete_consistent:
  assumes wf: "wf_graph g" and r: "run_schedule g limit sched init_state = Some s"
    and c: "complete g s" and n: "n < length (nodes g)"
  shows "results s n = Some (outcomes g ! n)"
  using consistent_outcomes_eq [OF wf consistent_run_schedule [OF wf consistent_init r]
      complete_results [OF c n]] .

lemma arg_values_Lit [simp]: "arg_values res (map Lit vs) = Some vs"
  by (induction vs) simp_all

lemma run_returns:
  assumes b: "built g" and l: "0 < limit" and ts: "list_all (valid_handle g) ts"
  shows "\<exists>m. run g ts limit = Inr m \<and> map fst m = ts"
proof -
  have "\<forall>t \<in> set ts. h_graph t = gid g \<and> h_node t < length (nodes g)"
    using ts by (simp add: list_all_iff valid_handle_def)
  from run_eq_outcomes [OF b l this] show ?thesis by (simp add: comp_def)
qed

lemma complete_pass_trace:
  assumes b: "built g" and r: "run_schedule g limit sched init_state = Some s"
    and c: "complete g s" and n: "n < length (nodes g)"
  shows "count_list (trace s) n = (if dependency_failed g s n then 0 else 1) \<and>
         (dependency_failed g s n \<longleftrightarrow> results s n = Some DependencyFailedError) \<and>
         list_all (\<lambda>m. list_all (\<lambda>p. evaluated_before (trace s) p m) (preds g ! m)) (trace s)"
proof -
  note wf = built_wf [OF b]
  have cons: "consistent g (results s)"
    by (rule consistent_run_schedule [OF wf consistent_init r])
  have tr: "trace_ok g s"
    by (rule trace_ok_run_schedule [OF wf trace_ok_init r])
  have res: "results s n \<noteq> None" by (rule complete_results [OF c n])
  have val: "results s n = Some (node_outcome g (results s) n)"
    by (rule consistent_val [OF cons res])
  have df: "dependency_failed g s n \<longleftrightarrow> results s n = Some DependencyFailedError"
    using val node_outcome_dependency_failed [OF wf n, of s] by simp
  have "n \<in> set (trace s) \<longleftrightarrow> \<not> dependency_failed g s n"
    using tr val df by (auto simp: trace_ok_def)
  moreover have "distinct (trace s)" using tr by (simp add: trace_ok_def)
  ultimately have cnt: "count_list (trace s) n = (if dependency_failed g s n then 0 else 1)"
    by (simp add: count_list_distinct)
  have ord: "list_all (\<lambda>m. list_all (\<lambda>p. evaluated_before (trace s) p m) (preds g ! m)) (trace s)"
    using tr by (simp add: trace_ok_def list_all_iff)
  from cnt df ord show ?thesis by blast
qed

section \<open>The example passes\<close>

lemma fan_run_a: "run_schedule fan_graph 2 [[0, 1], [2, 3], [4]] init_state = Some fan_state_a"
proof -
  have "\<not> Option.is_none (run_schedule fan_graph 2 [[0, 1], [2, 3], [4]] init_state)"
    by code_simp
  then show ?thesis by (auto simp: fan_state_a_def Option.is_none_def)
qed

lemma fan_state_a_facts:
  "complete fan_graph fan_state_a"
  "trace fan_state_a = [0, 1, 2, 3, 4]"
  "map (results fan_state_a) [0, 1, 2, 3, 4] = [Some (Ok 10), Some (Ok 20), Some (Ok 30), Some (Ok 15), Some (Ok 55)]"
  by code_simp+

lemma fan_run_b: "run_schedule fan_graph 1 [[1], [0], [3], [2], [4]] init_state = Some fan_state_b"
proof -
  have "\<not> Option.is_none (run_schedule fan_graph 1 [[1], [0], [3], [2], [4]] init_state)"
    by code_simp
  then show ?thesis by (auto simp: fan_state_b_def Option.is_none_def)
qed

lemma fan_state_b_facts:
  "complete fan_graph fan_state_b"
  "trace fan_state_b = [1, 0, 3, 2, 4]"
  "map (results fan_state_b) [0, 1, 2, 3, 4] = [Some (Ok 10), Some (Ok 20), Some (Ok 30), Some (Ok 15), Some (Ok 55)]"
  by code_simp+

lemma fan_out_0: "fan_out fan_graph 0 = 3"
  by code_simp

section \<open>The values the recipes compute\<close>

lemma node_outcome_nodes:
  "nodes g' ! n = nodes g ! n \<Longrightarrow> node_outcome g' res n = node_outcome g res n"
  by (simp add: node_outcome_def split: option.splits)

lemma outcomes_upto_defer:
  assumes "nodes g' = nodes g @ ns" and "k \<le> length (nodes g)"
  shows "outcomes_upto g' k = outcomes_upto g k"
  using assms(2)
proof (induction k)
  case 0
  show ?case by simp
next
  case (Suc k)
  then have "nodes g' ! k = nodes g ! k" using assms(1) by (simp add: nth_append)
  then have "node_outcome g' (lookup (outcomes_upto g k)) k = node_outcome g (lookup (outcomes_upto g k)) k"
    by (rule node_outcome_nodes)
  with Suc show ?case by (simp add: Let_def)
qed

lemma outcomes_defer:
  assumes d: "defer_node f as g = Inr (h, g')"
  shows "outcomes g' = outcomes g @
           [call_outcome f (length (nodes g)) (arg_values (lookup (outcomes g)) as)]"
proof -
  note fl = defer_node_fields [OF d]
  have "outcomes_upto g' (length (nodes g)) = outcomes_upto g (length (nodes g))"
    using outcomes_upto_defer [OF fl(1)] by simp
  then show ?thesis
    using fl by (simp add: outcomes_def Let_def node_outcome_def call_outcome_def
        split: option.splits)
qed

lemma lookup_append: "p < length os \<Longrightarrow> lookup (os @ os') p = lookup os p"
  by (simp add: lookup_def nth_append)

lemma arg_values_extend:
  assumes "\<forall>a \<in> set as. valid_arg g a" and "length (nodes g) = length os"
  shows "arg_values (lookup (os @ os')) as = arg_values (lookup os) as"
proof (rule arg_values_cong, rule ballI)
  fix h assume "h \<in> set (handles_of as)"
  then have "h_node h < length os" using handles_of_valid [OF assms(1)] assms(2) by simp
  then show "lookup (os @ os') (h_node h) = lookup os (h_node h)" by (rule lookup_append)
qed

lemma valid_arg_mono:
  "valid_arg g a \<Longrightarrow> gid g' = gid g \<Longrightarrow> length (nodes g) \<le> length (nodes g') \<Longrightarrow> valid_arg g' a"
  by (cases a) auto

lemma add_neighbors_values:
  "built g \<Longrightarrow> \<forall>a \<in> set L. valid_arg g a \<Longrightarrow> add_neighbors L g = Inr (L', g') \<Longrightarrow>
   arg_values (lookup (outcomes g)) L = Some vs \<Longrightarrow>
   built g' \<and> gid g' = gid g \<and> (\<forall>a \<in> set L'. valid_arg g' a) \<and>
   (\<exists>os. outcomes g' = outcomes g @ os) \<and>
   (\<exists>vs'. arg_values (lookup (outcomes g')) L' = Some vs' \<and> sum_list vs' = sum_list vs)"
proof (induction L g arbitrary: L' g' vs rule: add_neighbors.induct)
  case (1 g)
  then show ?case by auto
next
  case (2 x g)
  then show ?case by simp
next
  case (3 x y rest g)
  let ?N = "length (nodes g)"
  from "3.prems"(3) obtain lazy g1 new_L where
    a: "add x y g = Inr (lazy, g1)" and r: "add_neighbors rest g1 = Inr (new_L, g')"
    and L': "L' = Ref lazy # new_L"
    by (auto split: sum.splits)
  have d: "defer_node add_body [x, y] g = Inr (lazy, g1)" using a by (simp add: add_def)
  note fl = defer_node_fields [OF d]
  have lazy: "lazy = Handle (gid g) ?N" by (rule defer_node_Inr(1) [OF d])
  from "3.prems"(4) obtain vx vy vr where
    vs: "vs = vx # vy # vr" and vx: "arg_value (lookup (outcomes g)) x = Some vx"
    and vy: "arg_value (lookup (outcomes g)) y = Some vy"
    and vr: "arg_values (lookup (outcomes g)) rest = Some vr"
    by (auto split: option.splits)
  have o1: "outcomes g1 = outcomes g @ [Ok (vx + vy)]"
    using outcomes_defer [OF d] vx vy by (simp add: call_outcome_def)
  have b1: "built g1" using "3.prems"(1) d by (rule built_defer)
  have v1: "\<forall>a \<in> set rest. valid_arg g1 a"
    using "3.prems"(2) valid_arg_defer [OF d] by simp
  have vr1: "arg_values (lookup (outcomes g1)) rest = Some vr"
    unfolding o1 using arg_values_extend [of rest g "outcomes g"] "3.prems"(2) vr by simp
  from "3.IH" [OF a refl b1 v1 r vr1] obtain os vs' where
    b': "built g'" and gid': "gid g' = gid g1" and v': "\<forall>a \<in> set new_L. valid_arg g' a"
    and o': "outcomes g' = outcomes g1 @ os"
    and vs': "arg_values (lookup (outcomes g')) new_L = Some vs'" "sum_list vs' = sum_list vr"
    by blast
  have len: "length (nodes g') = Suc ?N + length os"
    using length_outcomes [of g'] o' o1 by simp
  have "lookup (outcomes g') ?N = Some (Ok (vx + vy))"
    unfolding o' o1 by (simp add: lookup_def nth_append)
  then have lz: "arg_value (lookup (outcomes g')) (Ref lazy) = Some (vx + vy)"
    using lazy by simp
  have "valid_arg g' (Ref lazy)" using lazy gid' fl(4) len by simp
  with v' have vL: "\<forall>a \<in> set L'. valid_arg g' a" using L' by simp
  have av: "arg_values (lookup (outcomes g')) L' = Some ((vx + vy) # vs')"
    using L' lz vs'(1) by simp
  have sm: "sum_list ((vx + vy) # vs') = sum_list vs" using vs vs'(2) by simp
  have oo: "outcomes g' = outcomes g @ ([Ok (vx + vy)] @ os)" using o' o1 by simp
  have gg: "gid g' = gid g" using gid' fl(4) by simp
  show ?case
  proof (intro conjI)
    show "built g'" by (rule b')
    show "gid g' = gid g" by (rule gg)
    show "\<forall>a \<in> set L'. valid_arg g' a" by (rule vL)
    show "\<exists>os. outcomes g' = outcomes g @ os" using oo ..
    show "\<exists>vs'. arg_values (lookup (outcomes g')) L' = Some vs' \<and> sum_list vs' = sum_list vs"
      using av sm by blast
  qed
qed

lemma tree_loop_values:
  "built g \<Longrightarrow> \<forall>a \<in> set L. valid_arg g a \<Longrightarrow> tree_loop L g = Inr (L', g') \<Longrightarrow>
   arg_values (lookup (outcomes g)) L = Some vs \<Longrightarrow>
   \<exists>vs'. arg_values (lookup (outcomes g')) L' = Some vs' \<and> sum_list vs' = sum_list vs"
proof (induction L g arbitrary: vs rule: tree_loop.induct)
  case (1 L g)
  show ?case
  proof (cases "1 < length L")
    case False
    then have "L' = L" "g' = g" using "1.prems"(3) by (simp_all add: tree_loop.simps)
    then show ?thesis using "1.prems"(4) by simp
  next
    case True
    from "1.prems"(3) True obtain L1 g1 where
      a: "add_neighbors L g = Inr (L1, g1)" and t: "tree_loop L1 g1 = Inr (L', g')"
      by (subst (asm) tree_loop.simps) (auto split: sum.splits)
    from add_neighbors_values [OF "1.prems"(1,2) a "1.prems"(4)] obtain vs1 where
      b1: "built g1" and v1: "\<forall>a \<in> set L1. valid_arg g1 a"
      and vs1: "arg_values (lookup (outcomes g1)) L1 = Some vs1" "sum_list vs1 = sum_list vs"
      by blast
    from "1.IH" [OF True a refl b1 v1 t vs1(1)] vs1(2) show ?thesis by simp
  qed
qed

lemma sum_upto_int: "2 * sum_list (map int [0..<n]) = int n * (int n - 1)"
  by (induction n) (simp_all add: algebra_simps)

lemma sum_tens: "sum_list (map (\<lambda>x. 10 * x) (map int [0..<n])) = 5 * int n * (int n - 1)"
  by (induction n) (simp_all add: algebra_simps)

lemma outcomes_empty [simp]: "outcomes (empty_graph i) = []"
  by (simp add: outcomes_def empty_graph_def)

lemma do_something_each_outcomes:
  "do_something_each xs g = Inr (hs, g') \<Longrightarrow>
   outcomes g' = outcomes g @ map (\<lambda>x. Ok (x * 10)) xs"
proof (induction xs arbitrary: g hs g')
  case Nil
  then show ?case by simp
next
  case (Cons x xs)
  from Cons.prems obtain h g1 hs1 where
    d: "defer_node do_something_body [Lit x] g = Inr (h, g1)"
    and r: "do_something_each xs g1 = Inr (hs1, g')"
    by (auto simp: do_something_def split: sum.splits)
  have "outcomes g1 = outcomes g @ [Ok (x * 10)]"
    using outcomes_defer [OF d] by (simp add: call_outcome_def)
  with Cons.IH [OF r] show ?case by simp
qed

lemma arg_values_refs:
  "\<forall>k \<in> set ks. k < length vs \<Longrightarrow>
   arg_values (lookup (map Ok vs)) (map (\<lambda>k. Ref (Handle i k)) ks) = Some (map ((!) vs) ks)"
  by (induction ks) (simp_all add: lookup_def)

section \<open>The claims\<close>

text \<open>
  C1 (as the code has it).  The \<open>2 ^ exp\<close> leaves of \<open>bench_tree\<close> are literal
  arguments, not nodes, and a literal argument contributes no edge.  For every
  \<open>exp \<ge> 1\<close> the graph has \<open>2 ^ exp - 1\<close> nodes, all of them \<open>add\<close> nodes:
  \<open>2 ^ (exp - 1)\<close> without an incoming edge (the bottom level, adding two literals)
  and \<open>2 ^ (exp - 1) - 1\<close> with exactly two incoming edges each; it has
  \<open>2 ^ exp - 2\<close> edges and critical-path length \<open>exp - 1\<close>.
\<close>

theorem bench_tree_metrics:
  "1 \<le> exp \<Longrightarrow>
   \<exists>h g. bench_tree exp (empty_graph i) = Inr ([Ref h], g) \<and>
         vertexCount g = 2 ^ nat exp - 1 \<and>
         int (length (leaf_nodes g)) = 2 ^ (nat exp - 1) \<and>
         int (length (internal_nodes g)) = 2 ^ (nat exp - 1) - 1 \<and>
         list_all (\<lambda>n. in_degree g n = 2) (internal_nodes g) \<and>
         edgeCount g = 2 ^ nat exp - 2 \<and>
         criticalPathLength g = exp - 1"
proof -
  assume e: "1 \<le> exp"
  define m :: nat where "m = 2 ^ (nat exp - 1)"
  have m1: "1 \<le> m" by (simp add: m_def)
  have pw: "(2::nat) ^ nat exp = 2 * m"
    using e by (simp add: m_def flip: power_Suc)
  have "int (2 ^ nat exp) = int (2 * m)" using pw by simp
  then have pwi: "(2::int) ^ nat exp = 2 * int m" by simp
  have mi: "(2::int) ^ (nat exp - 1) = int m" by (simp add: m_def)
  from bench_tree_graph [OF e, of i, folded m_def] obtain g pss ds where
    t: "bench_tree exp (empty_graph i) = Inr ([Ref (Handle i (length (nodes g) - 1))], g)"
    and b: "built g"
    and n: "length (nodes g) = 2 * m - 1"
    and p: "preds g = replicate m [] @ pss" "length pss = m - 1" "\<forall>ps \<in> set pss. length ps = 2"
    and d: "depths g = replicate m 0 @ ds" "\<forall>x \<in> set ds. x \<le> exp - 1"
       "1 < exp \<longrightarrow> exp - 1 \<in> set ds"
    by (elim exE conjE) (rule that, assumption+)
  note wf = built_wf [OF b]
  have lp: "length (preds g) = length (nodes g)" by (rule wf_lengths(1) [OF wf])
  have v: "vertexCount g = 2 ^ nat exp - 1"
    using n m1 by (simp add: vertexCount_def of_nat_diff pwi)
  have f0: "filter (\<lambda>ps. length ps = 0) pss = []"
    using p(3) by (intro filter_none) auto
  have f1: "filter (\<lambda>ps. 0 < length ps) pss = pss"
    using p(3) by (intro filter_all) auto
  have "length (leaf_nodes g) = length (filter (\<lambda>ps. length ps = 0) (preds g))"
    unfolding leaf_nodes_def in_degree_def lp [symmetric] by (rule length_filter_nth)
  also have "\<dots> = m" unfolding p(1) filter_append f0 by simp
  finally have leaf: "length (leaf_nodes g) = m" .
  have nm: "length (nodes g) = m + (m - 1)" using n m1 by simp
  have int_eq: "internal_nodes g = [m..<m + (m - 1)]"
  proof -
    have "[0..<m + (m - 1)] = [0..<m] @ [m..<m + (m - 1)]"
      by (rule upt_add_eq_append) simp
    then have "internal_nodes g =
        filter (\<lambda>n. 0 < length (preds g ! n)) [0..<m] @
        filter (\<lambda>n. 0 < length (preds g ! n)) [m..<m + (m - 1)]"
      unfolding internal_nodes_def in_degree_def nm by (simp only: filter_append)
    moreover have "filter (\<lambda>n. 0 < length (preds g ! n)) [0..<m] = []"
      by (rule filter_none) (simp add: p(1) nth_append)
    moreover have "filter (\<lambda>n. 0 < length (preds g ! n)) [m..<m + (m - 1)] = [m..<m + (m - 1)]"
    proof (rule filter_all, rule ballI)
      fix k assume "k \<in> set [m..<m + (m - 1)]"
      then have "pss ! (k - m) \<in> set pss" "\<not> k < m" using p(2) by auto
      then show "0 < length (preds g ! k)" using p by (simp add: nth_append)
    qed
    ultimately show ?thesis by simp
  qed
  have "int (length (internal_nodes g)) = int m - 1"
    using m1 by (simp add: int_eq of_nat_diff)
  then have inl: "int (length (internal_nodes g)) = 2 ^ (nat exp - 1) - 1"
    by (simp only: mi)
  have leaf': "int (length (leaf_nodes g)) = 2 ^ (nat exp - 1)"
    by (simp only: mi leaf)
  have deg: "list_all (\<lambda>n. in_degree g n = 2) (internal_nodes g)"
    unfolding int_eq list_all_iff in_degree_def
  proof
    fix k assume "k \<in> set [m..<m + (m - 1)]"
    then have "pss ! (k - m) \<in> set pss" "\<not> k < m" using p(2) by auto
    then show "length (preds g ! k) = 2" using p by (simp add: nth_append)
  qed
  have "sum_list (map length pss) = 2 * (m - 1)"
    using sum_list_const_length [OF p(3)] p(2) by simp
  then have ed: "edgeCount g = 2 ^ nat exp - 2"
    using m1 by (simp add: edgeCount_def built_edge_sum [OF b] p(1) sum_list_replicate of_nat_diff pwi)
  have "max_of (depths g) = exp - 1"
  proof (rule antisym)
    show "max_of (depths g) \<le> exp - 1"
      unfolding d(1) using d(2) e by (intro max_of_le) auto
    show "exp - 1 \<le> max_of (depths g)"
    proof (cases "1 < exp")
      case True
      then show ?thesis unfolding d(1) using d(3) by (intro max_of_ge) simp
    next
      case False
      then have "exp - 1 = 0" using e by simp
      moreover have "0 \<in> set (depths g)" unfolding d(1) using m1 by simp
      ultimately show ?thesis using max_of_ge [of 0 "depths g"] by simp
    qed
  qed
  then have cp: "criticalPathLength g = exp - 1"
    using critical_path_max_depth [OF wf] by simp
  from t v leaf' inl deg ed cp show ?thesis by blast
qed

text \<open>For \<open>exp = 3\<close>: 7 nodes (4 without incoming edge, 3 with two), 6 edges, critical path 2.\<close>

theorem bench_tree_metrics_witness:
  "(1::int) \<le> 3 \<and>
   (\<exists>h g. bench_tree 3 (empty_graph 0) = Inr ([Ref h], g) \<and>
         vertexCount g = 7 \<and> int (length (leaf_nodes g)) = 4 \<and>
         int (length (internal_nodes g)) = 3 \<and>
         list_all (\<lambda>n. in_degree g n = 2) (internal_nodes g) \<and>
         edgeCount g = 6 \<and> criticalPathLength g = 2)"
  using bench_tree_metrics [of 3 0] by simp

text \<open>
  The claim as stated (8 leaf nodes, 7 internal nodes, 14 edges, critical-path
  length 3 for \<open>exp = 3\<close>) fails on the graph \<open>bench_tree(3)\<close> builds.
\<close>

theorem bench_tree_claimed_metrics_counterexample:
  "map_option (length \<circ> leaf_nodes) (built_graph (bench_tree 3 (empty_graph 0))) = Some 4 \<and>
   map_option (length \<circ> internal_nodes) (built_graph (bench_tree 3 (empty_graph 0))) = Some 3 \<and>
   map_option edgeCount (built_graph (bench_tree 3 (empty_graph 0))) = Some 6 \<and>
   map_option criticalPathLength (built_graph (bench_tree 3 (empty_graph 0))) = Some 2 \<and>
   \<not> (map_option (length \<circ> leaf_nodes) (built_graph (bench_tree 3 (empty_graph 0))) = Some 8 \<and>
      map_option (length \<circ> internal_nodes) (built_graph (bench_tree 3 (empty_graph 0))) = Some 7 \<and>
      map_option edgeCount (built_graph (bench_tree 3 (empty_graph 0))) = Some 14 \<and>
      map_option criticalPathLength (built_graph (bench_tree 3 (empty_graph 0))) = Some 3)"
  by code_simp

text \<open>
  C2.  For every \<open>count \<ge> 1\<close>, \<open>bench_merge(count)\<close> (\<open>count\<close> independent leaf tasks and
  one merge node) builds a graph with \<open>count + 1\<close> vertices, \<open>count\<close> edges and
  critical-path length \<open>1\<close>; for \<open>count = 5\<close>: 6 vertices, 5 edges, critical-path
  length 1.
\<close>

theorem bench_merge_metrics:
  "1 \<le> count \<Longrightarrow>
   \<exists>h g. bench_merge count (empty_graph i) = Inr (h, g) \<and>
         vertexCount g = count + 1 \<and> edgeCount g = count \<and> criticalPathLength g = 1"
proof -
  assume c: "1 \<le> count"
  from bench_merge_graph [of count i] obtain g where
    e: "bench_merge count (empty_graph i) = Inr (Handle i (nat count), g)" and b: "built g"
    and n: "nodes g = map (\<lambda>x. \<lparr>callable_of = do_something_body, args = [Lit x]\<rparr>) (map int [0..<nat count])
                       @ [\<lparr>callable_of = merge_body, args = map (\<lambda>k. Ref (Handle i k)) [0..<nat count]\<rparr>]"
    and p: "preds g = replicate (nat count) [] @ [[0..<nat count]]"
    by blast
  have len: "length (nodes g) = Suc (nat count)" using n by simp
  have v: "vertexCount g = count + 1" using c len by (simp add: vertexCount_def)
  have ed: "edgeCount g = count"
    using c by (simp add: edgeCount_def built_edge_sum [OF b] p sum_list_replicate)
  have d: "depths g = replicate (nat count) 0 @ [1]"
    using bench_merge_depths [OF p len] c by simp
  have "max_of (depths g) \<le> 1" unfolding d by (intro max_of_le) auto
  moreover have "1 \<le> max_of (depths g)" unfolding d by (intro max_of_ge) simp
  ultimately have "criticalPathLength g = 1"
    using critical_path_max_depth [OF built_wf [OF b]] by simp
  with e v ed show ?thesis by blast
qed

theorem bench_merge_metrics_witness:
  "(1::int) \<le> 5 \<and>
   (\<exists>h g. bench_merge 5 (empty_graph 0) = Inr (h, g) \<and>
         vertexCount g = 6 \<and> edgeCount g = 5 \<and> criticalPathLength g = 1)"
  using bench_merge_metrics [of 5 0] by simp

text \<open>
  C3.  For every graph made by the builder's deferred calls, the number of dependency
  edges equals the sum, over all nodes, of the number of handle-valued arguments the
  node was created with; literal arguments contribute no edge.
\<close>

theorem edge_count_is_handle_args:
  "built g \<Longrightarrow> edgeCount g = int (sum_list (map handle_arg_count (nodes g)))"
proof -
  assume b: "built g"
  have "map length (preds g) = map handle_arg_count (nodes g)"
    by (subst wf_preds_eq [OF built_wf [OF b]]) (simp add: handle_arg_count_def comp_def)
  then show ?thesis
    by (simp add: edgeCount_def built_edge_sum [OF b])
qed

theorem edge_count_is_handle_args_witness:
  "built fan_graph \<and> edgeCount fan_graph = 6 \<and>
   map handle_arg_count (nodes fan_graph) = [0, 0, 2, 1, 3]"
proof -
  have args: "map handle_arg_count (nodes fan_graph) = [0, 0, 2, 1, 3]"
    by (simp add: fan_graph_eq handle_arg_count_def)
  have "edgeCount fan_graph = 6"
    using edge_count_is_handle_args [OF fan_graph_built] by (simp only: args) simp
  with fan_graph_built args show ?thesis by blast
qed

text \<open>
  C4 (as the model of the specification has it).  In every complete execution pass,
  whatever the schedule and the concurrency limit, the callable of a node \<open>N\<close> with
  fan-out to \<open>k > 1\<close> dependents is invoked at most once: exactly once when all the
  nodes \<open>N\<close> depends on succeeded, and not at all when a dependency of \<open>N\<close> failed
  (\<open>N\<close> is then reported as \<open>DependencyFailedError\<close>).  Every node whose callable is
  invoked is invoked after all the nodes it depends on.  The same holds of the pass
  the entry point \<open>run\<close> makes with at least one worker.
\<close>

theorem callable_invoked_once_unless_dependency_failed:
  assumes b: "built g" and r: "run_schedule g limit sched init_state = Some s"
    and c: "complete g s" and n: "n < length (nodes g)" and k: "1 < fan_out g n"
  shows "count_list (trace s) n = (if dependency_failed g s n then 0 else 1) \<and>
         (dependency_failed g s n \<longleftrightarrow> results s n = Some DependencyFailedError) \<and>
         list_all (\<lambda>m. list_all (\<lambda>p. evaluated_before (trace s) p m) (preds g ! m)) (trace s) \<and>
         (0 < limit \<longrightarrow>
            count_list (trace (run_loop g limit init_state)) n =
              (if dependency_failed g (run_loop g limit init_state) n then 0 else 1) \<and>
            list_all (\<lambda>m. list_all (\<lambda>p. evaluated_before (trace (run_loop g limit init_state)) p m)
                             (preds g ! m))
              (trace (run_loop g limit init_state)))"
proof -
  have own: "count_list (trace (run_loop g limit init_state)) n =
              (if dependency_failed g (run_loop g limit init_state) n then 0 else 1) \<and>
            list_all (\<lambda>m. list_all (\<lambda>p. evaluated_before (trace (run_loop g limit init_state)) p m)
                             (preds g ! m))
              (trace (run_loop g limit init_state))" if l: "0 < limit"
  proof -
    from run_loop_is_schedule [of g limit init_state] obtain sched' where
      r': "run_schedule g limit sched' init_state = Some (run_loop g limit init_state)" ..
    have c': "complete g (run_loop g limit init_state)"
      by (rule run_loop_complete [OF built_wf [OF b] l])
    from complete_pass_trace [OF b r' c' n] show ?thesis by blast
  qed
  from complete_pass_trace [OF b r c n] own show ?thesis by blast
qed

theorem callable_invoked_once_unless_dependency_failed_witness:
  "built fan_graph \<and>
   run_schedule fan_graph 2 [[0, 1], [2, 3], [4]] init_state = Some fan_state_a \<and>
   complete fan_graph fan_state_a \<and> fan_out fan_graph 0 = 3 \<and>
   \<not> dependency_failed fan_graph fan_state_a 0 \<and>
   count_list (trace fan_state_a) 0 = 1 \<and> trace fan_state_a = [0, 1, 2, 3, 4] \<and>
   list_all (\<lambda>m. list_all (\<lambda>p. evaluated_before (trace fan_state_a) p m) (preds fan_graph ! m))
     (trace fan_state_a)"
proof -
  have n: "0 < length (nodes fan_graph)" by (simp add: fan_graph_eq)
  have k: "1 < fan_out fan_graph 0" by (simp add: fan_out_0)
  have nd: "\<not> dependency_failed fan_graph fan_state_a 0" by code_simp
  from callable_invoked_once_unless_dependency_failed
    [OF fan_graph_built fan_run_a fan_state_a_facts(1) n k] nd
  have "count_list (trace fan_state_a) 0 = 1 \<and>
        list_all (\<lambda>m. list_all (\<lambda>p. evaluated_before (trace fan_state_a) p m) (preds fan_graph ! m))
          (trace fan_state_a)"
    by simp
  with nd fan_graph_built fan_run_a fan_state_a_facts(1,2) fan_out_0
  show ?thesis by simp
qed

text \<open>
  The claim as stated, exactly once for every node with fan-out above one, fails
  where such a node depends on a node whose callable fails: in \<open>failing_graph\<close>
  node 1 has two dependents and its callable is never invoked.
\<close>

theorem callable_exactly_once_counterexample:
  "fan_out failing_graph 1 = 2 \<and>
   complete failing_graph (run_loop failing_graph 2 init_state) \<and>
   trace (run_loop failing_graph 2 init_state) = [0] \<and>
   count_list (trace (run_loop failing_graph 2 init_state)) 1 = 0 \<and>
   run failing_graph [Handle 0 1] 2 = Inr [(Handle 0 1, DependencyFailedError)]"
  by code_simp

text \<open>
  C5.  For a chain \<open>A \<rightarrow> B \<rightarrow> C\<close> in which \<open>A\<close>'s callable succeeds and \<open>B\<close>'s callable
  fails, a single \<open>run\<close> call returns the mapping that reports \<open>A\<close> as successful, \<open>B\<close>
  with its \<open>TaskExecutionError\<close> and \<open>C\<close> as \<open>DependencyFailedError\<close>.  And whatever
  the callables of a graph do, \<open>run\<close> on valid terminals with at least one worker
  returns a mapping with one entry per terminal: it never raises for a node's failure.
\<close>

theorem failure_propagates_and_run_returns:
  assumes l: "0 < limit" and a: "fa vs = Inr va" and f: "fb [va] = Inl cause"
  shows "(\<exists>g. defer_all [(fa, map Lit vs), (fb, [Ref (Handle i 0)]), (fc, [Ref (Handle i 1)])]
               (empty_graph i) = Inr g \<and>
             run g [Handle i 0, Handle i 1, Handle i 2] limit =
               Inr [(Handle i 0, Ok va), (Handle i 1, TaskExecutionError 1 cause),
                    (Handle i 2, DependencyFailedError)]) \<and>
         (\<forall>g ts. built g \<and> list_all (valid_handle g) ts \<longrightarrow>
                 (\<exists>m. run g ts limit = Inr m \<and> map fst m = ts))"
proof -
  define g where "g = \<lparr>gid = i,
      nodes = [\<lparr>callable_of = fa, args = map Lit vs\<rparr>,
               \<lparr>callable_of = fb, args = [Ref (Handle i 0)]\<rparr>,
               \<lparr>callable_of = fc, args = [Ref (Handle i 1)]\<rparr>],
      preds = [[], [0], [1]], succs = [[1], [2], []]\<rparr>"
  have d: "defer_all [(fa, map Lit vs), (fb, [Ref (Handle i 0)]), (fc, [Ref (Handle i 1)])]
               (empty_graph i) = Inr g"
    by (simp add: g_def defer_node_def empty_graph_def add_successor_def Let_def numeral_2_eq_2)
  have b: "built g" using built_empty d by (rule defer_all_built)
  have o: "outcomes g = [Ok va, TaskExecutionError 1 cause, DependencyFailedError]"
    using a f
    by (simp add: outcomes_def g_def node_outcome_def lookup_def numeral_3_eq_3 Let_def)
  have "run g [Handle i 0, Handle i 1, Handle i 2] limit =
          Inr (map (\<lambda>t. (t, outcomes g ! h_node t)) [Handle i 0, Handle i 1, Handle i 2])"
    by (rule run_eq_outcomes [OF b l]) (simp add: g_def)
  then have "run g [Handle i 0, Handle i 1, Handle i 2] limit =
               Inr [(Handle i 0, Ok va), (Handle i 1, TaskExecutionError 1 cause),
                    (Handle i 2, DependencyFailedError)]"
    by (simp add: o)
  with d have chain: "\<exists>g. defer_all [(fa, map Lit vs), (fb, [Ref (Handle i 0)]), (fc, [Ref (Handle i 1)])]
               (empty_graph i) = Inr g \<and>
             run g [Handle i 0, Handle i 1, Handle i 2] limit =
               Inr [(Handle i 0, Ok va), (Handle i 1, TaskExecutionError 1 cause),
                    (Handle i 2, DependencyFailedError)]"
    by blast
  have "\<forall>g ts. built g \<and> list_all (valid_handle g) ts \<longrightarrow>
                 (\<exists>m. run g ts limit = Inr m \<and> map fst m = ts)"
    using run_returns [OF _ l] by blast
  with chain show ?thesis by blast
qed

theorem failure_propagates_and_run_returns_witness:
  "(0::nat) < 2 \<and> do_something_body [1] = Inr 10 \<and> failing_body [10] = Inl ''failed'' \<and>
   (\<exists>g. defer_all [(do_something_body, map Lit [1]), (failing_body, [Ref (Handle 0 0)]),
                    (do_something_body, [Ref (Handle 0 1)])] (empty_graph 0) = Inr g \<and>
        run g [Handle 0 0, Handle 0 1, Handle 0 2] 2 =
          Inr [(Handle 0 0, Ok 10), (Handle 0 1, TaskExecutionError 1 ''failed''),
               (Handle 0 2, DependencyFailedError)])"
proof -
  have l: "(0::nat) < 2" by simp
  have a: "do_something_body [1] = Inr 10" by simp
  have f: "failing_body [10] = Inl ''failed''" by (simp add: failing_body_def)
  from failure_propagates_and_run_returns
    [where limit = 2 and fa = do_something_body and vs = "[1]" and va = 10
       and fb = failing_body and cause = "''failed''" and i = 0 and fc = do_something_body,
     OF l a f] l a f
  show ?thesis by simp
qed

text \<open>
  C6.  For a fixed graph whose callables do not fail, any two complete execution
  passes, whatever their schedules and concurrency limits, leave the same result
  value in the slot of every terminal, and it is a success value; the entry point
  returns the same mapping for any two positive concurrency limits.  Concurrency is
  modelled by batches: the nodes run together in one scheduling step are any
  selection of at most \<open>limit\<close> runnable nodes.
\<close>

theorem results_deterministic:
  assumes b: "built g" and ff: "failure_free g"
    and r1: "run_schedule g k1 sched1 init_state = Some s1" and c1: "complete g s1"
    and r2: "run_schedule g k2 sched2 init_state = Some s2" and c2: "complete g s2"
    and t: "valid_handle g t"
  shows "results s1 (h_node t) = results s2 (h_node t) \<and>
         (\<exists>v. results s1 (h_node t) = Some (Ok v)) \<and>
         (0 < k1 \<and> 0 < k2 \<longrightarrow> run g [t] k1 = run g [t] k2)"
proof -
  note wf = built_wf [OF b]
  have n: "h_node t < length (nodes g)" using t by (simp add: valid_handle_def)
  have e1: "results s1 (h_node t) = Some (outcomes g ! h_node t)"
    by (rule results_complete_consistent [OF wf r1 c1 n])
  have e2: "results s2 (h_node t) = Some (outcomes g ! h_node t)"
    by (rule results_complete_consistent [OF wf r2 c2 n])
  have "outcomes g ! h_node t \<in> set (outcomes g)" using n by simp
  then have "case outcomes g ! h_node t of Ok v \<Rightarrow> True | _ \<Rightarrow> False"
    using ff by (simp add: failure_free_def list_all_iff)
  then have ok: "\<exists>v. outcomes g ! h_node t = Ok v"
    by (simp split: outcome.splits)
  have run: "run g [t] k = Inr [(t, outcomes g ! h_node t)]" if "0 < k" for k
    using run_eq_outcomes [OF b that, of "[t]"] t by (simp add: valid_handle_def)
  from e1 e2 ok run show ?thesis by auto
qed

theorem results_deterministic_witness:
  "built fan_graph \<and> failure_free fan_graph \<and>
   run_schedule fan_graph 2 [[0, 1], [2, 3], [4]] init_state = Some fan_state_a \<and>
   complete fan_graph fan_state_a \<and>
   run_schedule fan_graph 1 [[1], [0], [3], [2], [4]] init_state = Some fan_state_b \<and>
   complete fan_graph fan_state_b \<and> valid_handle fan_graph (Handle 0 4) \<and>
   results fan_state_a 4 = results fan_state_b 4 \<and> results fan_state_a 4 = Some (Ok 55) \<and>
   run fan_graph [Handle 0 4] 2 = run fan_graph [Handle 0 4] 1"
proof -
  have ff: "failure_free fan_graph" by code_simp
  have t: "valid_handle fan_graph (Handle 0 4)" by code_simp
  have v: "results fan_state_a 4 = Some (Ok 55)" by code_simp
  from results_deterministic
    [OF fan_graph_built ff fan_run_a fan_state_a_facts(1) fan_run_b fan_state_b_facts(1) t]
    fan_graph_built ff fan_run_a fan_state_a_facts(1) fan_run_b fan_state_b_facts(1) t v
  show ?thesis by simp
qed

text \<open>
  C7.  For every graph (made by the builder) the critical-path length is at least \<open>0\<close>,
  and it is \<open>0\<close> if and only if the graph has no edges, that is, consists of
  disconnected single nodes only.
\<close>

theorem critical_path_zero_iff_no_edges:
  "built g \<Longrightarrow>
   0 \<le> criticalPathLength g \<and> (criticalPathLength g = 0 \<longleftrightarrow> edgeCount g = 0)"
proof -
  assume b: "built g"
  note wf = built_wf [OF b]
  let ?d = "depth_at (depths g)"
  have cp: "criticalPathLength g = max_of (depths g)"
    by (rule critical_path_max_depth [OF wf])
  have nn: "\<forall>x \<in> set (depths g). 0 \<le> x"
    using depths_upto_nonneg [of g "length (nodes g)"] by (simp add: depths_def)
  have edges: "edgeCount g = 0 \<longleftrightarrow> (\<forall>ps \<in> set (preds g). ps = [])"
    by (simp add: edgeCount_def built_edge_sum [OF b] sum_list_length_zero)
  have zero: "criticalPathLength g = 0" if e: "edgeCount g = 0"
  proof -
    have "\<forall>x \<in> set (depths g). x \<le> 0"
    proof
      fix x assume "x \<in> set (depths g)"
      then obtain n where n: "n < length (nodes g)" "x = depths g ! n"
        by (auto simp: in_set_conv_nth)
      then have "preds g ! n = []" using e edges wf_lengths(1) [OF wf] by simp
      from depth_root [OF wf n(1) this] n show "x \<le> 0" by (simp add: depth_at_def)
    qed
    then have "max_of (depths g) \<le> 0" by (intro max_of_le) simp_all
    with max_of_nonneg [OF nn] cp show ?thesis by simp
  qed
  have pos: "criticalPathLength g \<noteq> 0" if e: "edgeCount g \<noteq> 0"
  proof -
    from e edges obtain ps where "ps \<in> set (preds g)" "ps \<noteq> []" by auto
    then obtain n where n: "n < length (nodes g)" "preds g ! n \<noteq> []"
      using wf_lengths(1) [OF wf] by (metis in_set_conv_nth)
    then obtain p where p: "p \<in> set (preds g ! n)" by (cases "preds g ! n") auto
    have "0 < ?d n"
      using depth_pred_less [OF wf n(1) p] depth_at_nonneg [of g p] by linarith
    moreover have "?d n \<le> max_of (depths g)"
      using n(1) by (intro max_of_ge) (simp add: depth_at_def)
    ultimately show ?thesis using cp by simp
  qed
  show ?thesis
    using zero pos max_of_nonneg [OF nn] cp by auto
qed

theorem critical_path_zero_iff_no_edges_witness:
  "built fan_graph \<and> 0 \<le> criticalPathLength fan_graph \<and>
   (criticalPathLength fan_graph = 0) = (edgeCount fan_graph = 0) \<and>
   criticalPathLength fan_graph = 2 \<and> edgeCount fan_graph = 6"
  using critical_path_zero_iff_no_edges [OF fan_graph_built] fan_graph_built fan_graph_metrics
  by blast

text \<open>
  C8.  For every \<open>count \<ge> 0\<close>, executing the terminal that \<open>bench_merge(count)\<close>
  returns yields the sum of \<open>10 * x\<close> for \<open>x\<close> in \<open>range(count)\<close>, which is
  \<open>5 * count * (count - 1)\<close>; for \<open>count = 0\<close> the merge node has no handle argument
  and the result is \<open>0\<close>.
\<close>

theorem bench_merge_value:
  "0 \<le> count \<Longrightarrow> 0 < limit \<Longrightarrow>
   \<exists>h g. bench_merge count (empty_graph i) = Inr (h, g) \<and>
         run g [h] limit = Inr [(h, Ok (sum_list (map (\<lambda>x. 10 * x) (map int [0..<nat count]))))] \<and>
         sum_list (map (\<lambda>x. 10 * x) (map int [0..<nat count])) = 5 * count * (count - 1) \<and>
         (count = 0 \<longrightarrow> handle_arg_count (nodes g ! h_node h) = 0 \<and>
                        run g [h] limit = Inr [(h, Ok 0)])"
proof -
  assume c0: "0 \<le> count" and l: "0 < limit"
  define c where "c = nat count"
  let ?xs = "map int [0..<c]"
  let ?hs = "map (\<lambda>k. Ref (Handle i k)) [0..<c]"
  from bench_merge_graph [of count i, folded c_def] obtain g where
    e: "bench_merge count (empty_graph i) = Inr (Handle i c, g)" and b: "built g"
    and gi: "gid g = i"
    and n: "nodes g = map (\<lambda>x. \<lparr>callable_of = do_something_body, args = [Lit x]\<rparr>) ?xs
                       @ [\<lparr>callable_of = merge_body, args = ?hs\<rparr>]"
    by blast
  obtain hs g1 where e1: "do_something_each ?xs (empty_graph i) = Inr (hs, g1)"
    and hs: "hs = ?hs" and n1: "length (nodes g1) = c"
    by (simp add: do_something_each_eq empty_graph_def)
  have m: "defer_node merge_body ?hs g1 = Inr (Handle i c, g)"
    using e e1 hs by (simp add: bench_merge_def merge_def c_def)
  have o1: "outcomes g1 = map Ok (map (\<lambda>x. x * 10) ?xs)"
    using do_something_each_outcomes [OF e1] by (simp add: comp_def)
  have av: "arg_values (lookup (outcomes g1)) ?hs = Some (map (\<lambda>x. x * 10) ?xs)"
  proof -
    have "arg_values (lookup (map Ok (map (\<lambda>x. x * 10) ?xs))) ?hs =
          Some (map ((!) (map (\<lambda>x. x * 10) ?xs)) [0..<c])"
      by (rule arg_values_refs) simp
    moreover have "map ((!) (map (\<lambda>x. x * 10) ?xs)) [0..<c] = map (\<lambda>x. x * 10) ?xs"
      using map_nth [of "map (\<lambda>x. x * 10) ?xs"] by simp
    ultimately show ?thesis by (simp only: o1)
  qed
  have sm: "sum_list (map (\<lambda>x. x * 10) ?xs) = sum_list (map (\<lambda>x. 10 * x) ?xs)"
    by (simp add: mult.commute)
  have "outcomes g = outcomes g1 @ [Ok (sum_list (map (\<lambda>x. 10 * x) ?xs))]"
    using outcomes_defer [OF m] n1 av sm by (simp add: call_outcome_def merge_body_def)
  then have oc: "outcomes g ! c = Ok (sum_list (map (\<lambda>x. 10 * x) ?xs))"
    using o1 by (simp add: nth_append)
  have len: "length (nodes g) = Suc c" using n by simp
  have run: "run g [Handle i c] limit = Inr [(Handle i c, Ok (sum_list (map (\<lambda>x. 10 * x) ?xs)))]"
    using run_eq_outcomes [OF b l, of "[Handle i c]"] gi len oc by simp
  have closed: "sum_list (map (\<lambda>x. 10 * x) ?xs) = 5 * count * (count - 1)"
    using sum_tens [of c] c0 by (simp add: c_def)
  have zero: "handle_arg_count (nodes g ! c) = 0 \<and>
              run g [Handle i c] limit = Inr [(Handle i c, Ok 0)]" if "count = 0"
    using that n run by (simp add: c_def handle_arg_count_def)
  from e run closed zero show ?thesis
    unfolding c_def by (intro exI [of _ "Handle i (nat count)"] exI [of _ g]) simp
qed

theorem bench_merge_value_witness:
  "(0::int) \<le> 5 \<and> (0::nat) < 2 \<and>
   (\<exists>h g. bench_merge 5 (empty_graph 0) = Inr (h, g) \<and> run g [h] 2 = Inr [(h, Ok 100)]) \<and>
   (\<exists>h g. bench_merge 0 (empty_graph 0) = Inr (h, g) \<and> run g [h] 2 = Inr [(h, Ok 0)] \<and>
          handle_arg_count (nodes g ! h_node h) = 0)"
proof -
  have a: "(0::int) \<le> 5" and z: "(0::int) \<le> 0" and l: "(0::nat) < 2" by simp_all
  have s: "sum_list (map (\<lambda>x. 10 * x) (map int [0..<nat 5])) = 100" by code_simp
  from bench_merge_value [OF a l, of 0]
  have "\<exists>h g. bench_merge 5 (empty_graph 0) = Inr (h, g) \<and> run g [h] 2 = Inr [(h, Ok 100)]"
    unfolding s by blast
  moreover from bench_merge_value [OF z l, of 0]
  have "\<exists>h g. bench_merge 0 (empty_graph 0) = Inr (h, g) \<and> run g [h] 2 = Inr [(h, Ok 0)] \<and>
          handle_arg_count (nodes g ! h_node h) = 0"
    by blast
  ultimately show ?thesis by simp
qed

text \<open>
  C9.  For every \<open>exp \<ge> 0\<close>, \<open>bench_tree(exp)\<close> returns a list of exactly one element.
  For \<open>exp = 0\<close> it is the literal \<open>0\<close> and no node is created (the graph stays
  empty).  For \<open>exp \<ge> 1\<close> it is a handle, and the node it names is the root of the
  reduction tree: it is the last of the \<open>2 ^ exp - 1\<close> nodes, it is the only node
  that no node depends on (so every other node feeds into it), its longest path
  from a leaf has length \<open>exp - 1\<close>, and it is the \<open>add\<close> of the two nodes created
  just before it (of the literals \<open>0\<close> and \<open>1\<close> when \<open>exp = 1\<close>).
\<close>

theorem bench_tree_returns_one:
  "0 \<le> exp \<Longrightarrow>
   \<exists>x g. bench_tree exp (empty_graph i) = Inr ([x], g) \<and>
         (exp = 0 \<longrightarrow> x = Lit 0 \<and> g = empty_graph i) \<and>
         (1 \<le> exp \<longrightarrow>
            x = Ref (Handle i (2 ^ nat exp - 2)) \<and>
            length (nodes g) = 2 ^ nat exp - 1 \<and>
            sinks g = [2 ^ nat exp - 2] \<and>
            depth_at (depths g) (2 ^ nat exp - 2) = exp - 1 \<and>
            nodes g ! (2 ^ nat exp - 2) =
              \<lparr>callable_of = add_body,
               args = (if exp = 1 then [Lit 0, Lit 1]
                       else [Ref (Handle i (2 ^ nat exp - 4)),
                             Ref (Handle i (2 ^ nat exp - 3))])\<rparr>)"
proof (cases "exp = 0")
  case True
  then have "bench_tree exp (empty_graph i) = Inr ([Lit 0], empty_graph i)"
    by (simp add: bench_tree_def tree_loop.simps)
  with True show ?thesis by simp
next
  case False
  assume "0 \<le> exp"
  with False have e: "1 \<le> exp" by simp
  from bench_tree_graph [OF e, of i] obtain L g where
    t: "bench_tree exp (empty_graph i) = Inr (L, g)" by blast
  from bench_tree_critical_path [OF e t] have
    cp: "criticalPathLength g = exp - 1" and n: "length (nodes g) = 2 ^ nat exp - 1"
    and L: "L = [Ref (Handle i (length (nodes g) - 1))]"
    by simp_all
  from bench_tree_root [OF e t] have
    sk: "sinks g = [length (nodes g) - 1]"
    and rt: "nodes g ! (length (nodes g) - 1) =
           \<lparr>callable_of = add_body,
            args = (if exp = 1 then [Lit 0, Lit 1]
                    else [Ref (Handle i (length (nodes g) - 3)),
                          Ref (Handle i (length (nodes g) - 2))])\<rparr>"
    by simp_all
  have dp: "depth_at (depths g) (length (nodes g) - 1) = exp - 1"
    using cp sk by (simp add: criticalPathLength_def)
  have i1: "length (nodes g) - 1 = 2 ^ nat exp - 2"
    and i2: "length (nodes g) - 2 = 2 ^ nat exp - 3"
    and i3: "length (nodes g) - 3 = 2 ^ nat exp - 4"
    using n by simp_all
  from t L n sk dp rt False show ?thesis
    unfolding i1 i2 i3
    by (intro exI [of _ "Ref (Handle i (2 ^ nat exp - 2))"] exI [of _ g]) simp
qed

theorem bench_tree_returns_one_witness:
  "(0::int) \<le> 2 \<and>
   (\<exists>g. bench_tree 2 (empty_graph 0) = Inr ([Ref (Handle 0 2)], g) \<and>
        length (nodes g) = 3 \<and> sinks g = [2] \<and> depth_at (depths g) 2 = 1 \<and>
        nodes g ! 2 = \<lparr>callable_of = add_body,
                        args = [Ref (Handle 0 0), Ref (Handle 0 1)]\<rparr>) \<and>
   bench_tree 0 (empty_graph 0) = Inr ([Lit 0], empty_graph 0)"
proof -
  have "bench_tree 0 (empty_graph 0) = Inr ([Lit 0], empty_graph 0)"
    using bench_tree_returns_one [of 0 0] by auto
  moreover have "\<exists>g. bench_tree 2 (empty_graph 0) = Inr ([Ref (Handle 0 2)], g) \<and>
        length (nodes g) = 3 \<and> sinks g = [2] \<and> depth_at (depths g) 2 = 1 \<and>
        nodes g ! 2 = \<lparr>callable_of = add_body,
                        args = [Ref (Handle 0 0), Ref (Handle 0 1)]\<rparr>"
    using bench_tree_returns_one [of 2 0] by auto
  ultimately show ?thesis by simp
qed

text \<open>
  C10.  For every \<open>exp \<ge> 1\<close>, executing the single terminal that \<open>bench_tree(exp)\<close>
  returns yields \<open>sum(range(2 ** exp))\<close>, which is \<open>2 ^ (exp - 1) * (2 ^ exp - 1)\<close>;
  \<open>bench_tree(3)\<close> evaluates to 28.
\<close>

theorem bench_tree_value:
  "1 \<le> exp \<Longrightarrow> 0 < limit \<Longrightarrow>
   \<exists>h g. bench_tree exp (empty_graph i) = Inr ([Ref h], g) \<and>
         run g [h] limit = Inr [(h, Ok (2 ^ (nat exp - 1) * (2 ^ nat exp - 1)))] \<and>
         sum_list (map int [0..<2 ^ nat exp]) = 2 ^ (nat exp - 1) * (2 ^ nat exp - 1)"
proof -
  assume e: "1 \<le> exp" and l: "0 < limit"
  let ?n = "(2::nat) ^ nat exp"
  let ?L = "map (\<lambda>i. Lit (int i)) [0..<?n]"
  from bench_tree_graph [OF e, of i] obtain g where
    t: "bench_tree exp (empty_graph i) = Inr ([Ref (Handle i (length (nodes g) - 1))], g)"
    and b: "built g" and gi: "gid g = i"
    by blast
  let ?h = "Handle i (length (nodes g) - 1)"
  have tl: "tree_loop ?L (empty_graph i) = Inr ([Ref ?h], g)"
    using t e by (simp add: bench_tree_def)
  have L: "?L = map Lit (map int [0..<?n])" by simp
  have av: "arg_values (lookup (outcomes (empty_graph i))) ?L = Some (map int [0..<?n])"
    unfolding L by (rule arg_values_Lit)
  have va: "\<forall>a \<in> set ?L. valid_arg (empty_graph i) a" by auto
  from tree_loop_values [OF built_empty va tl av] obtain vs' where
    vs': "arg_values (lookup (outcomes g)) [Ref ?h] = Some vs'"
    "sum_list vs' = sum_list (map int [0..<?n])"
    by blast
  then obtain v where v: "lookup (outcomes g) (length (nodes g) - 1) = Some (Ok v)"
    "v = sum_list (map int [0..<?n])"
    by (auto split: option.splits outcome.splits)
  then have hn: "length (nodes g) - 1 < length (nodes g)"
    and ov: "outcomes g ! (length (nodes g) - 1) = Ok v"
    by (simp_all add: lookup_def split: if_splits)
  have run: "run g [?h] limit = Inr [(?h, Ok v)]"
    using run_eq_outcomes [OF b l, of "[?h]"] gi hn ov by simp
  have "nat exp = Suc (nat exp - 1)" using e by simp
  then have pw: "int ?n = 2 * 2 ^ (nat exp - 1)"
    by (metis of_nat_numeral of_nat_power power_Suc)
  have "2 * v = int ?n * (int ?n - 1)" using v(2) sum_upto_int [of ?n] by simp
  then have "v = 2 ^ (nat exp - 1) * (int ?n - 1)" unfolding pw by simp
  then have closed: "v = 2 ^ (nat exp - 1) * (2 ^ nat exp - 1)" by simp
  from t run closed v(2) show ?thesis by (intro exI [of _ ?h] exI [of _ g]) simp
qed

theorem bench_tree_value_witness:
  "(1::int) \<le> 3 \<and> (0::nat) < 2 \<and>
   (\<exists>h g. bench_tree 3 (empty_graph 0) = Inr ([Ref h], g) \<and> run g [h] 2 = Inr [(h, Ok 28)])"
proof -
  have a: "(1::int) \<le> 3" and l: "(0::nat) < 2" by simp_all
  from bench_tree_value [OF a l, of 0]
  have "\<exists>h g. bench_tree 3 (empty_graph 0) = Inr ([Ref h], g) \<and> run g [h] 2 = Inr [(h, Ok 28)]"
    by auto
  then show ?thesis by simp
qed

end
